theory Spec2Isabelle
  imports Complex_Main "HOL-Library.Log_Nat"
begin

section \<open>The Stochastic oscillator of StochasticIndicator.ts\<close>

text \<open>
  The development embeds \<^verbatim>\<open>getValues\<close> of
  \<^verbatim>\<open>src/ts/Stock/Indicators/StochasticIndicator.ts\<close> (lines 174--250).

  JavaScript numbers are the IEEE 754 doubles: a finite number is a real that the format
  represents, and every sum, product and quotient of two finite numbers is the exact result
  rounded to the nearest double, ties to the even significand, with gradual underflow and
  with overflow to an infinity. Division by zero, the arithmetic of the infinities and the
  propagation of \<^verbatim>\<open>NaN\<close> are those of the language. The two zeros of the
  format are one number here: a result that the format rounds to \<^verbatim>\<open>-0\<close> is
  the zero, and a quotient by zero is the quotient by \<^verbatim>\<open>+0\<close> (see
  \<open>js_div\<close>).
\<close>

subsection \<open>Numbers\<close>

datatype jsnum = Fin real | PInf | NInf | NaN

fun js_neg :: "jsnum \<Rightarrow> jsnum" where
  "js_neg (Fin a) = Fin (- a)"
| "js_neg PInf = NInf"
| "js_neg NInf = PInf"
| "js_neg NaN = NaN"

text \<open>
  The integer nearest to a real, the even one of two that are equally near.
\<close>

definition half_even :: "real \<Rightarrow> int" where
  "half_even x =
     (let f = \<lfloor>x\<rfloor>; d = x - of_int f
      in if d < 1 / 2 then f else if 1 / 2 < d then f + 1 else if even f then f else f + 1)"

text \<open>
  A non-negative real rounded to the nearest integer of at most 53 significant bits: with
  \<open>b\<close> the number of bits of its integral part, the multiples of \<open>2 ^ (b - 53)\<close> are
  the candidates, and all integers are where \<open>b \<le> 53\<close>.
\<close>

definition round53 :: "real \<Rightarrow> int" where
  "round53 s = (let t = nat (bitlen \<lfloor>s\<rfloor> - 53) in half_even (s / 2 ^ t) * 2 ^ t)"

text \<open>
  The least positive double is \<open>2 ^ - 1074\<close>, and every double is an integral multiple
  of it. A non-negative real is rounded as the number of these units it holds; a result of
  \<open>2 ^ 1024\<close> or more is the infinity. A negative real is rounded as its negation.
\<close>

definition subnormal_bits :: nat where
  "subnormal_bits = 1074"

definition round_pos :: "real \<Rightarrow> jsnum" where
  "round_pos x =
     (let r = round53 (x * 2 ^ subnormal_bits)
      in if 2 ^ (1024 + subnormal_bits) \<le> r then PInf else Fin (of_int r / 2 ^ subnormal_bits))"

definition round64 :: "real \<Rightarrow> jsnum" where
  "round64 x = (if x < 0 then js_neg (round_pos (- x)) else round_pos x)"

text \<open>
  The reals that are doubles, and the numbers with such a finite part;
  \<^verbatim>\<open>isFinite\<close> of a number.
\<close>

definition is_double :: "real \<Rightarrow> bool" where
  "is_double a = (round64 a = Fin a)"

fun is_double_num :: "jsnum \<Rightarrow> bool" where
  "is_double_num (Fin a) = is_double a"
| "is_double_num _ = True"

fun isFinite :: "jsnum \<Rightarrow> bool" where
  "isFinite (Fin _) = True"
| "isFinite _ = False"

fun js_add :: "jsnum \<Rightarrow> jsnum \<Rightarrow> jsnum" where
  "js_add NaN _ = NaN"
| "js_add _ NaN = NaN"
| "js_add (Fin a) (Fin b) = round64 (a + b)"
| "js_add PInf NInf = NaN"
| "js_add NInf PInf = NaN"
| "js_add PInf _ = PInf"
| "js_add NInf _ = NInf"
| "js_add (Fin a) b = b"

definition js_sub :: "jsnum \<Rightarrow> jsnum \<Rightarrow> jsnum" where
  "js_sub a b = js_add a (js_neg b)"

text \<open>The sign of a number that is not \<^verbatim>\<open>NaN\<close>: \<open>-1\<close>, \<open>0\<close> or \<open>1\<close>.\<close>

fun js_sgn :: "jsnum \<Rightarrow> real" where
  "js_sgn (Fin a) = sgn a"
| "js_sgn PInf = 1"
| "js_sgn NInf = - 1"
| "js_sgn NaN = 0"

definition signed_inf :: "real \<Rightarrow> jsnum" where
  "signed_inf s = (if s = 0 then NaN else if 0 < s then PInf else NInf)"

fun js_mul :: "jsnum \<Rightarrow> jsnum \<Rightarrow> jsnum" where
  "js_mul NaN _ = NaN"
| "js_mul _ NaN = NaN"
| "js_mul (Fin a) (Fin b) = round64 (a * b)"
| "js_mul a b = signed_inf (js_sgn a * js_sgn b)"

text \<open>
  Division: the rounded quotient where the divisor is not zero; \<open>0 / 0\<close> and
  \<open>\<plusminus>\<infinity> / \<plusminus>\<infinity>\<close> are \<^verbatim>\<open>NaN\<close>; a finite number over an
  infinity is zero. A non-zero number over zero is an infinity: the one with the sign of the
  dividend here, which is the quotient by \<^verbatim>\<open>+0\<close>. The function divides by
  \<^verbatim>\<open>HL\<close>, a difference; a zero difference is \<^verbatim>\<open>+0\<close> unless the
  greatest high is \<^verbatim>\<open>-0\<close> and the least low \<^verbatim>\<open>+0\<close>, where the
  language gives the infinity of the other sign. The general properties below state of a
  quotient by zero only that it is an infinity or \<^verbatim>\<open>NaN\<close>, which holds for
  either zero; the examples divide by the difference of two equal numbers.
\<close>

fun js_div :: "jsnum \<Rightarrow> jsnum \<Rightarrow> jsnum" where
  "js_div NaN _ = NaN"
| "js_div _ NaN = NaN"
| "js_div (Fin a) (Fin b) = (if b = 0 then signed_inf a else round64 (a / b))"
| "js_div (Fin a) _ = Fin 0"
| "js_div a (Fin b) = signed_inf (js_sgn a * (if b < 0 then - 1 else 1))"
| "js_div _ _ = NaN"

text \<open>\<^verbatim>\<open>Math.min\<close> and \<^verbatim>\<open>Math.max\<close> of two numbers.\<close>

fun js_le :: "jsnum \<Rightarrow> jsnum \<Rightarrow> bool" where
  "js_le NaN _ = False"
| "js_le _ NaN = False"
| "js_le NInf _ = True"
| "js_le _ PInf = True"
| "js_le (Fin a) (Fin b) = (a \<le> b)"
| "js_le _ _ = False"

definition Math_min :: "jsnum \<Rightarrow> jsnum \<Rightarrow> jsnum" where
  "Math_min a b = (if a = NaN \<or> b = NaN then NaN else if js_le a b then a else b)"

definition Math_max :: "jsnum \<Rightarrow> jsnum \<Rightarrow> jsnum" where
  "Math_max a b = (if a = NaN \<or> b = NaN then NaN else if js_le a b then b else a)"

subsection \<open>Values\<close>

text \<open>
  The values the function meets: a primitive is \<^verbatim>\<open>undefined\<close>,
  \<^verbatim>\<open>null\<close> or a number; an element of \<^verbatim>\<open>yData\<close> is a primitive or an
  array of primitives (the declared type is \<^verbatim>\<open>Array<Array<number>>\<close>, reached
  through a cast from \<^verbatim>\<open>any\<close>).
\<close>

datatype prim = Undefined | Null | Num jsnum

datatype jsval = Prim prim | Arr "prim list"

datatype error = TypeError | EmptySlice

text \<open>\<^verbatim>\<open>ToNumber\<close>, as the arithmetic operators apply it to an operand.\<close>

fun ToNumber :: "prim \<Rightarrow> jsnum" where
  "ToNumber Undefined = NaN"
| "ToNumber Null = Fin 0"
| "ToNumber (Num a) = a"

fun isArray :: "jsval \<Rightarrow> bool" where
  "isArray (Arr _) = True"
| "isArray (Prim _) = False"

text \<open>
  Reading \<^verbatim>\<open>a[i]\<close> from an array: \<^verbatim>\<open>undefined\<close> outside the array.
\<close>

definition prim_at :: "prim list \<Rightarrow> int \<Rightarrow> prim" where
  "prim_at xs i = (if 0 \<le> i \<and> i < int (length xs) then xs ! nat i else Undefined)"

definition val_at :: "jsval list \<Rightarrow> int \<Rightarrow> jsval" where
  "val_at xs i = (if 0 \<le> i \<and> i < int (length xs) then xs ! nat i else Prim Undefined)"

text \<open>
  Reading \<^verbatim>\<open>v[k]\<close> from an element: a \<^verbatim>\<open>TypeError\<close> on
  \<^verbatim>\<open>undefined\<close> and \<^verbatim>\<open>null\<close>, \<^verbatim>\<open>undefined\<close> on a number.
\<close>

fun get_index :: "jsval \<Rightarrow> int \<Rightarrow> error + prim" where
  "get_index (Arr fs) k = Inr (prim_at fs k)"
| "get_index (Prim (Num _)) k = Inr Undefined"
| "get_index (Prim _) k = Inl TypeError"

text \<open>
  \<^verbatim>\<open>v.length\<close> of an element that passed \<^verbatim>\<open>isArray\<close>; the function
  reads it of nothing else.
\<close>

fun js_length :: "jsval \<Rightarrow> int" where
  "js_length (Arr fs) = int (length fs)"
| "js_length (Prim _) = 0"

text \<open>
  \<^verbatim>\<open>Array.prototype.slice(start, end)\<close>: a negative bound counts from the end,
  and both bounds are clamped to the array.
\<close>

definition slice :: "'a list \<Rightarrow> int \<Rightarrow> int \<Rightarrow> 'a list" where
  "slice xs start end =
     (let len = int (length xs);
          k = (if start < 0 then max (len + start) 0 else min start len);
          final = (if end < 0 then max (len + end) 0 else min end len)
      in take (nat (final - k)) (drop (nat k) xs))"

text \<open>\<^verbatim>\<open>slice(start)\<close>, the end left out.\<close>

definition slice_from :: "'a list \<Rightarrow> int \<Rightarrow> 'a list" where
  "slice_from xs start = slice xs start (int (length xs))"

subsection \<open>The series and the result\<close>

text \<open>
  \<^verbatim>\<open>series.xData\<close> and \<^verbatim>\<open>series.yData\<close>, both arrays: the
  series is one that has its \<^verbatim>\<open>yData\<close>, so that the test of
  \<^verbatim>\<open>yVal ? yVal.length : 0\<close> takes its first branch (an array is truthy).
  The result \<^verbatim>\<open>{values, xData, yData}\<close> extends the same shape.
\<close>

record series =
  xData :: "prim list"
  yData :: "jsval list"

record IndicatorValuesObject = series +
  "values" :: "jsval list"

text \<open>\<^verbatim>\<open>params.periods\<close>, the pair \<^verbatim>\<open>[%K, %D]\<close>.\<close>

record StochasticIndicatorParamsOptions =
  periods :: "int \<times> int"

subsection \<open>The collaborators\<close>

text \<open>
  Modelled from the spec: \<^verbatim>\<open>getArrayExtremes\<close> of
  \<^verbatim>\<open>Mixins/ReduceArray.js\<close> is not among the sources. Section 4.1 of the
  specification: it "computes the minimum of the low field and the maximum of the high
  field across exactly the given slice"; the slice must not be empty, which is "a
  precondition violation". The fields are read and converted to numbers as the function
  itself reads the close field.
\<close>

fun getArrayExtremes :: "jsval list \<Rightarrow> int \<Rightarrow> int \<Rightarrow> error + (jsnum \<times> jsnum)" where
  "getArrayExtremes [] minIndex maxIndex = Inl EmptySlice"
| "getArrayExtremes (target # arr) minIndex maxIndex =
     (case get_index target minIndex of Inl e \<Rightarrow> Inl e | Inr lo \<Rightarrow>
      case get_index target maxIndex of Inl e \<Rightarrow> Inl e | Inr hi \<Rightarrow>
      if arr = [] then Inr (ToNumber lo, ToNumber hi)
      else case getArrayExtremes arr minIndex maxIndex of Inl e \<Rightarrow> Inl e
           | Inr prev \<Rightarrow> Inr (Math_min (ToNumber lo) (fst prev), Math_max (ToNumber hi) (snd prev)))"

text \<open>
  Modelled from the spec: the arithmetic mean that \<^verbatim>\<open>SMA.prototype.getValues\<close> of
  the \<^verbatim>\<open>sma\<close> series type, which is not among the sources, takes of a window
  (section 6: "the windowed arithmetic means"): the sum of the samples over their number.
\<close>

definition mean :: "jsnum list \<Rightarrow> jsnum" where
  "mean samples = js_div (foldl js_add (Fin 0) samples) (Fin (real (length samples)))"

text \<open>
  Modelled from the spec: \<^verbatim>\<open>sma(samples, period)\<close> of section 6, the collaborator
  that is not among the sources: one mean for each window of \<^verbatim>\<open>period\<close> consecutive
  samples, so exactly one for \<^verbatim>\<open>period\<close> samples.
\<close>

definition sma :: "jsnum list \<Rightarrow> int \<Rightarrow> jsnum list" where
  "sma samples period =
     (if period \<le> 0 then []
      else map (\<lambda>k. mean (take (nat period) (drop k samples)))
             [0 ..< length samples + 1 - nat period])"

text \<open>
  Modelled from the spec: the samples \<^verbatim>\<open>SMA.prototype.getValues\<close>, which is not
  among the sources, reads from the rows it is given. Section 9 of the specification: the
  routine extracts the sample of each row by itself; here, the first field of the row, as a
  number.
\<close>

fun row_samples :: "jsval list \<Rightarrow> error + jsnum list" where
  "row_samples [] = Inr []"
| "row_samples (row # rows) =
     (case get_index row 0 of Inl e \<Rightarrow> Inl e | Inr v \<Rightarrow>
      case row_samples rows of Inl e \<Rightarrow> Inl e | Inr vs \<Rightarrow> Inr (ToNumber v # vs))"

text \<open>
  Modelled from the spec: the call \<^verbatim>\<open>SMA.prototype.getValues.call(this,
  {xData, yData}, {period})\<close> of a function that is not among the sources. The value is
  the \<^verbatim>\<open>yData\<close> of the returned object: the moving average of the samples of the
  rows.
\<close>

definition SMA_getValues :: "series \<Rightarrow> int \<Rightarrow> error + prim list" where
  "SMA_getValues s period =
     (case row_samples (yData s) of Inl e \<Rightarrow> Inl e
      | Inr samples \<Rightarrow> Inr (map Num (sma samples period)))"

subsection \<open>getValues\<close>

text \<open>The constants \<^verbatim>\<open>close = 3\<close>, \<^verbatim>\<open>low = 2\<close>, \<^verbatim>\<open>high = 1\<close>.\<close>

definition close :: int where "close = 3"
definition low :: int where "low = 2"
definition high :: int where "high = 1"

text \<open>
  Lines 218--225, the raw value of index \<open>i\<close>:
  \<^verbatim>\<open>
    slicedY = yVal.slice(i - periodK + 1, i + 1);
    extremes = getArrayExtremes(slicedY, low, high);
    LL = extremes[0];
    CL = yVal[i][close] - LL;
    HL = extremes[1] - LL;
    K = CL / HL * 100;
  \<close>
\<close>

definition calcK :: "jsval list \<Rightarrow> int \<Rightarrow> int \<Rightarrow> error + jsnum" where
  "calcK yVal periodK i =
     (let slicedY = slice yVal (i - periodK + 1) (i + 1) in
      case getArrayExtremes slicedY low high of Inl e \<Rightarrow> Inl e | Inr extremes \<Rightarrow>
      let LL = fst extremes in
      case get_index (val_at yVal i) close of Inl e \<Rightarrow> Inl e | Inr c \<Rightarrow>
      let CL = js_sub (ToNumber c) LL;
          HL = js_sub (snd extremes) LL
      in Inr (js_mul (js_div CL HL) (Fin 100)))"

text \<open>
  Lines 230--239, the smoothed value of index \<open>i\<close>, from the arrays that already hold
  the row of \<open>i\<close>; below the threshold \<open>D\<close> keeps its value.
\<close>

definition calcD :: "prim list \<Rightarrow> jsval list \<Rightarrow> int \<Rightarrow> int \<Rightarrow> int \<Rightarrow> prim \<Rightarrow> error + prim" where
  "calcD xD yD periodK periodD i D =
     (if i \<ge> (periodK - 1) + (periodD - 1) then
        case SMA_getValues \<lparr>xData = slice_from xD (- periodD),
                            yData = slice_from yD (- periodD)\<rparr> periodD of
          Inl e \<Rightarrow> Inl e
        | Inr points \<Rightarrow> Inr (prim_at points 0)
      else Inr D)"

text \<open>
  The loop of lines 217--243 over \<open>i\<close>, with the arrays \<^verbatim>\<open>SO\<close>,
  \<^verbatim>\<open>xData\<close>, \<^verbatim>\<open>yData\<close> and the variable \<^verbatim>\<open>D\<close> as its state.
  The row pushed to \<^verbatim>\<open>yData\<close> holds \<^verbatim>\<open>null\<close> while the moving average
  is taken and \<open>D\<close> afterwards.
\<close>

function loop ::
  "prim list \<Rightarrow> jsval list \<Rightarrow> int \<Rightarrow> int \<Rightarrow> int \<Rightarrow>
   jsval list \<times> prim list \<times> jsval list \<times> prim \<Rightarrow>
   error + (jsval list \<times> prim list \<times> jsval list \<times> prim)" where
  "loop xVal yVal periodK periodD i (SO, xD, yD, D) =
     (if i < int (length yVal) then
        case calcK yVal periodK i of Inl e \<Rightarrow> Inl e | Inr K \<Rightarrow>
        let xD1 = xD @ [prim_at xVal i];
            yD1 = yD @ [Arr [Num K, Null]]
        in case calcD xD1 yD1 periodK periodD i D of Inl e \<Rightarrow> Inl e | Inr D1 \<Rightarrow>
           loop xVal yVal periodK periodD (i + 1)
             (SO @ [Arr [prim_at xVal i, Num K, D1]],
              xD1,
              yD1[length yD1 - 1 := Arr [Num K, D1]],
              D1)
      else Inr (SO, xD, yD, D))"
  by pat_completeness auto
termination
  by (relation "measure (\<lambda>(xVal, yVal, periodK, periodD, i, st). nat (int (length yVal) - i))")
     auto

text \<open>
  The function: \<open>Inr None\<close> is the \<^verbatim>\<open>return;\<close> of line 211, \<open>Inl\<close> an
  exception.
\<close>

definition getValues ::
  "series \<Rightarrow> StochasticIndicatorParamsOptions \<Rightarrow> error + IndicatorValuesObject option" where
  "getValues s params =
     (let periodK = fst (periods params);
          periodD = snd (periods params);
          xVal = xData s;
          yVal = yData s;
          yValLen = int (length yVal)
      in if yValLen < periodK \<or> \<not> isArray (val_at yVal 0) \<or> js_length (val_at yVal 0) \<noteq> 4
         then Inr None
         else case loop xVal yVal periodK periodD (periodK - 1) ([], [], [], Null) of
                Inl e \<Rightarrow> Inl e
              | Inr (SO, xD, yD, D) \<Rightarrow> Inr (Some \<lparr>xData = xD, yData = yD, values = SO\<rparr>))"

subsection \<open>The function on a store\<close>

text \<open>
  The same function with its arrays as objects of a store, for the claims about what a call
  changes and what it shares. A store is the list of the arrays allocated so far and an
  address is a position in it; a cell of an array holds a primitive or the address of an
  array. The definitions follow the source statement by statement and return the store
  with their result; an exception carries the store of the moment it is raised. The call
  receives the addresses of \<^verbatim>\<open>series.xData\<close> and \<^verbatim>\<open>series.yData\<close>.
  The receiver \<^verbatim>\<open>this\<close>, which the function only hands on to the moving average, and
  the object literals of lines 232--237 and 245--249 are not represented.
\<close>

datatype hval = HPrim prim | HRef nat

type_synonym heap = "hval list list"

text \<open>
  A new array (an array literal or the result of \<^verbatim>\<open>slice\<close>) is appended to the store;
  \<^verbatim>\<open>a.push(v)\<close>; and the assignment \<^verbatim>\<open>a[k] = v\<close> to an index the array has.
\<close>

definition alloc :: "heap \<Rightarrow> hval list \<Rightarrow> nat \<times> heap" where
  "alloc h cells = (length h, h @ [cells])"

definition push :: "heap \<Rightarrow> nat \<Rightarrow> hval \<Rightarrow> heap" where
  "push h a v = h[a := h ! a @ [v]]"

definition store :: "heap \<Rightarrow> nat \<Rightarrow> nat \<Rightarrow> hval \<Rightarrow> heap" where
  "store h a k v = h[a := (h ! a)[k := v]]"

text \<open>
  Reading \<^verbatim>\<open>a[i]\<close> from the cells of an array.
\<close>

definition elem_at :: "hval list \<Rightarrow> int \<Rightarrow> hval" where
  "elem_at cells i = (if 0 \<le> i \<and> i < int (length cells) then cells ! nat i else HPrim Undefined)"

text \<open>
  Reading \<^verbatim>\<open>v[k]\<close> from a cell, as \<open>get_index\<close> does from a value.
\<close>

fun get_index_h :: "heap \<Rightarrow> hval \<Rightarrow> int \<Rightarrow> error + hval" where
  "get_index_h h (HRef a) k = Inr (elem_at (h ! a) k)"
| "get_index_h h (HPrim (Num _)) k = Inr (HPrim Undefined)"
| "get_index_h h (HPrim _) k = Inl TypeError"

text \<open>
  \<^verbatim>\<open>ToNumber\<close> of a cell. The fields of a bar are declared numbers; an array in the
  place of a field is outside the inputs the properties below are stated for.
\<close>

fun ToNumber_h :: "hval \<Rightarrow> jsnum" where
  "ToNumber_h (HPrim p) = ToNumber p"
| "ToNumber_h (HRef _) = NaN"

fun isArray_h :: "hval \<Rightarrow> bool" where
  "isArray_h (HRef _) = True"
| "isArray_h (HPrim _) = False"

fun js_length_h :: "heap \<Rightarrow> hval \<Rightarrow> int" where
  "js_length_h h (HRef a) = int (length (h ! a))"
| "js_length_h h (HPrim _) = 0"

text \<open>
  Modelled from the spec: \<^verbatim>\<open>getArrayExtremes\<close> of \<^verbatim>\<open>Mixins/ReduceArray.js\<close>,
  which is not among the sources, on the cells of the sliced array; section 4.1 of the
  specification, as for \<open>getArrayExtremes\<close> above. It is "a pure function, no side
  effects": it reads the store and leaves it as it is.
\<close>

fun getArrayExtremes_h :: "heap \<Rightarrow> hval list \<Rightarrow> int \<Rightarrow> int \<Rightarrow> error + (jsnum \<times> jsnum)" where
  "getArrayExtremes_h h [] minIndex maxIndex = Inl EmptySlice"
| "getArrayExtremes_h h (target # arr) minIndex maxIndex =
     (case get_index_h h target minIndex of Inl e \<Rightarrow> Inl e | Inr lo \<Rightarrow>
      case get_index_h h target maxIndex of Inl e \<Rightarrow> Inl e | Inr hi \<Rightarrow>
      if arr = [] then Inr (ToNumber_h lo, ToNumber_h hi)
      else case getArrayExtremes_h h arr minIndex maxIndex of Inl e \<Rightarrow> Inl e
           | Inr prev \<Rightarrow> Inr (Math_min (ToNumber_h lo) (fst prev), Math_max (ToNumber_h hi) (snd prev)))"

text \<open>
  Modelled from the spec: the samples \<^verbatim>\<open>SMA.prototype.getValues\<close>, which is not
  among the sources, reads from the rows at the cells it is given; section 9 of the
  specification, as for \<open>row_samples\<close> above.
\<close>

fun row_samples_h :: "heap \<Rightarrow> hval list \<Rightarrow> error + jsnum list" where
  "row_samples_h h [] = Inr []"
| "row_samples_h h (row # rows) =
     (case get_index_h h row 0 of Inl e \<Rightarrow> Inl e | Inr v \<Rightarrow>
      case row_samples_h h rows of Inl e \<Rightarrow> Inl e | Inr vs \<Rightarrow> Inr (ToNumber_h v # vs))"

text \<open>
  Modelled from the spec: the call of \<^verbatim>\<open>SMA.prototype.getValues\<close>, which is not
  among the sources, on the two sliced arrays; sections 6 and 9 of the specification, as for
  \<open>SMA_getValues\<close> above. It is "a black-box capability" that produces the means: it
  reads the store and leaves it as it is.
\<close>

definition SMA_getValues_h :: "heap \<Rightarrow> nat \<Rightarrow> nat \<Rightarrow> int \<Rightarrow> error + prim list" where
  "SMA_getValues_h h xD yD period =
     (case row_samples_h h (h ! yD) of Inl e \<Rightarrow> Inl e
      | Inr samples \<Rightarrow> Inr (map Num (sma samples period)))"

text \<open>
  Lines 218--225. \<^verbatim>\<open>yVal.slice(...)\<close> allocates the sliced array.
\<close>

definition calcK_h :: "heap \<Rightarrow> nat \<Rightarrow> int \<Rightarrow> int \<Rightarrow> (error + jsnum) \<times> heap" where
  "calcK_h h yVal periodK i =
     (let (slicedY, h1) = alloc h (slice (h ! yVal) (i - periodK + 1) (i + 1)) in
      case getArrayExtremes_h h1 (h1 ! slicedY) low high of Inl e \<Rightarrow> (Inl e, h1) | Inr extremes \<Rightarrow>
      let LL = fst extremes in
      case get_index_h h1 (elem_at (h1 ! yVal) i) close of Inl e \<Rightarrow> (Inl e, h1) | Inr c \<Rightarrow>
      let CL = js_sub (ToNumber_h c) LL;
          HL = js_sub (snd extremes) LL
      in (Inr (js_mul (js_div CL HL) (Fin 100)), h1))"

text \<open>
  Lines 230--239. The two \<^verbatim>\<open>slice(-periodD)\<close> allocate the arrays handed to the
  moving average.
\<close>

definition calcD_h ::
  "heap \<Rightarrow> nat \<Rightarrow> nat \<Rightarrow> int \<Rightarrow> int \<Rightarrow> int \<Rightarrow> prim \<Rightarrow> (error + prim) \<times> heap" where
  "calcD_h h xD yD periodK periodD i D =
     (if i \<ge> (periodK - 1) + (periodD - 1) then
        let (xs, h1) = alloc h (slice_from (h ! xD) (- periodD));
            (ys, h2) = alloc h1 (slice_from (h1 ! yD) (- periodD))
        in case SMA_getValues_h h2 xs ys periodD of
             Inl e \<Rightarrow> (Inl e, h2)
           | Inr points \<Rightarrow> (Inr (prim_at points 0), h2)
      else (Inr D, h))"

text \<open>
  One iteration, lines 218--242: the pushes to \<^verbatim>\<open>xData\<close>, \<^verbatim>\<open>yData\<close> and
  \<^verbatim>\<open>SO\<close>, the two rows \<^verbatim>\<open>[K, null]\<close> and \<^verbatim>\<open>[xVal[i], K, D]\<close> allocated for
  them, and the assignment \<^verbatim>\<open>yData[yData.length - 1][1] = D\<close>, which reads the last
  cell of \<^verbatim>\<open>yData\<close> and writes into the row it points to.
\<close>

definition body_h ::
  "nat \<Rightarrow> nat \<Rightarrow> int \<Rightarrow> int \<Rightarrow> nat \<Rightarrow> nat \<Rightarrow> nat \<Rightarrow> int \<Rightarrow> heap \<times> prim
   \<Rightarrow> (error + prim) \<times> heap" where
  "body_h xVal yVal periodK periodD SO xD yD i st =
     (case st of (h, D) \<Rightarrow>
      case calcK_h h yVal periodK i of (Inl e, h1) \<Rightarrow> (Inl e, h1) | (Inr K, h1) \<Rightarrow>
      let h2 = push h1 xD (elem_at (h1 ! xVal) i);
          (row, h3) = alloc h2 [HPrim (Num K), HPrim Null];
          h4 = push h3 yD (HRef row)
      in case calcD_h h4 xD yD periodK periodD i D of (Inl e, h5) \<Rightarrow> (Inl e, h5)
         | (Inr D1, h5) \<Rightarrow>
           let (point, h6) = alloc h5 [elem_at (h5 ! xVal) i, HPrim (Num K), HPrim D1];
               h7 = push h6 SO (HRef point)
           in case elem_at (h7 ! yD) (int (length (h7 ! yD)) - 1) of
                HPrim _ \<Rightarrow> (Inl TypeError, h7)
              | HRef r \<Rightarrow> (Inr D1, store h7 r 1 (HPrim D1)))"

text \<open>
  The loop of line 217; \<^verbatim>\<open>yValLen\<close> was read before the loop.
\<close>

function loop_h ::
  "nat \<Rightarrow> nat \<Rightarrow> int \<Rightarrow> int \<Rightarrow> int \<Rightarrow> nat \<Rightarrow> nat \<Rightarrow> nat \<Rightarrow> int \<Rightarrow> heap \<times> prim
   \<Rightarrow> error option \<times> heap" where
  "loop_h xVal yVal yValLen periodK periodD SO xD yD i (h, D) =
     (if i < yValLen then
        case body_h xVal yVal periodK periodD SO xD yD i (h, D) of
          (Inl e, h') \<Rightarrow> (Some e, h')
        | (Inr D1, h') \<Rightarrow> loop_h xVal yVal yValLen periodK periodD SO xD yD (i + 1) (h', D1)
      else (None, h))"
  by pat_completeness auto
termination
  by (relation "measure (\<lambda>(xVal, yVal, yValLen, periodK, periodD, SO, xD, yD, i, st). nat (yValLen - i))")
     auto

text \<open>
  The function. The three arrays \<^verbatim>\<open>SO\<close>, \<^verbatim>\<open>xData\<close> and \<^verbatim>\<open>yData\<close> are
  allocated by the declarations of lines 185--187, before the test of line 206. The result
  object is given by the addresses of its three arrays.
\<close>

definition getValues_h ::
  "heap \<Rightarrow> nat \<Rightarrow> nat \<Rightarrow> StochasticIndicatorParamsOptions
   \<Rightarrow> (error + (nat \<times> nat \<times> nat) option) \<times> heap" where
  "getValues_h h xVal yVal params =
     (let periodK = fst (periods params);
          periodD = snd (periods params);
          yValLen = int (length (h ! yVal));
          (SO, h1) = alloc h [];
          (xD, h2) = alloc h1 [];
          (yD, h3) = alloc h2 []
      in if yValLen < periodK \<or> \<not> isArray_h (elem_at (h3 ! yVal) 0)
            \<or> js_length_h h3 (elem_at (h3 ! yVal) 0) \<noteq> 4
         then (Inr None, h3)
         else case loop_h xVal yVal yValLen periodK periodD SO xD yD (periodK - 1) (h3, Null) of
                (Some e, h') \<Rightarrow> (Inl e, h')
              | (None, h') \<Rightarrow> (Inr (Some (SO, xD, yD)), h'))"

subsection \<open>Reading the store\<close>

text \<open>
  The values held at an address: an array of primitives, a cell, and an array of cells, as
  values of the kinds of section "Values".
\<close>

fun prim_of :: "hval \<Rightarrow> prim" where
  "prim_of (HPrim p) = p"
| "prim_of (HRef _) = Undefined"

fun is_prim :: "hval \<Rightarrow> bool" where
  "is_prim (HPrim _) = True"
| "is_prim (HRef _) = False"

definition read_prims :: "heap \<Rightarrow> nat \<Rightarrow> prim list" where
  "read_prims h a = map prim_of (h ! a)"

fun read_val :: "heap \<Rightarrow> hval \<Rightarrow> jsval" where
  "read_val h (HPrim p) = Prim p"
| "read_val h (HRef a) = Arr (read_prims h a)"

definition read_vals :: "heap \<Rightarrow> nat \<Rightarrow> jsval list" where
  "read_vals h a = map (read_val h) (h ! a)"

text \<open>
  The declared shape of the series in a store: both arrays exist, \<^verbatim>\<open>xData\<close> holds
  primitives, and every cell of \<^verbatim>\<open>yData\<close> is a primitive or the address of an existing
  array of primitives.
\<close>

fun typed_val :: "heap \<Rightarrow> hval \<Rightarrow> bool" where
  "typed_val h (HPrim _) = True"
| "typed_val h (HRef a) = (a < length h \<and> list_all is_prim (h ! a))"

definition typed_series :: "heap \<Rightarrow> nat \<Rightarrow> nat \<Rightarrow> bool" where
  "typed_series h xVal yVal =
     (xVal < length h \<and> yVal < length h
      \<and> list_all is_prim (h ! xVal) \<and> list_all (typed_val h) (h ! yVal))"

text \<open>
  What a caller observes of a call: the exception, the empty return, or the contents of the
  three returned arrays, read from the store the call leaves.
\<close>

definition outcome ::
  "(error + (nat \<times> nat \<times> nat) option) \<times> heap \<Rightarrow> error + IndicatorValuesObject option" where
  "outcome res =
     (case res of
        (Inl e, h) \<Rightarrow> Inl e
      | (Inr None, h) \<Rightarrow> Inr None
      | (Inr (Some (SO, xD, yD)), h) \<Rightarrow>
          Inr (Some \<lparr>xData = read_prims h xD, yData = read_vals h yD, values = read_vals h SO\<rparr>))"

text \<open>
  A store extends an earlier one when every array of the earlier one is in it, at its
  address and with its cells.
\<close>

definition extends :: "heap \<Rightarrow> heap \<Rightarrow> bool" where
  "extends h0 h = (take (length h0) h = h0)"

text \<open>
  The shape of the store during the loop: the store of the call is extended, the three
  arrays are new and distinct, \<^verbatim>\<open>xData\<close> holds primitives, and every cell of
  \<^verbatim>\<open>yData\<close> and \<^verbatim>\<open>SO\<close> is the address of a row of primitives allocated after
  them.
\<close>

fun is_row :: "heap \<Rightarrow> nat \<Rightarrow> hval \<Rightarrow> bool" where
  "is_row h yD (HRef r) = (yD < r \<and> r < length h \<and> list_all is_prim (h ! r))"
| "is_row h yD (HPrim _) = False"

definition state_ok :: "heap \<Rightarrow> nat \<Rightarrow> nat \<Rightarrow> nat \<Rightarrow> heap \<Rightarrow> bool" where
  "state_ok h0 SO xD yD h =
     (extends h0 h \<and> length h0 \<le> SO \<and> SO < xD \<and> xD < yD \<and> yD < length h
      \<and> list_all is_prim (h ! xD)
      \<and> list_all (is_row h yD) (h ! yD)
      \<and> list_all (is_row h yD) (h ! SO))"

text \<open>
  One iteration of \<open>loop\<close>, for the comparison with \<open>body_h\<close>.
\<close>

definition body ::
  "prim list \<Rightarrow> jsval list \<Rightarrow> int \<Rightarrow> int \<Rightarrow> int \<Rightarrow>
   jsval list \<times> prim list \<times> jsval list \<times> prim \<Rightarrow>
   error + (jsval list \<times> prim list \<times> jsval list \<times> prim)" where
  "body xVal yVal periodK periodD i st =
     (case st of (SO, xD, yD, D) \<Rightarrow>
      case calcK yVal periodK i of Inl e \<Rightarrow> Inl e | Inr K \<Rightarrow>
      case calcD (xD @ [prim_at xVal i]) (yD @ [Arr [Num K, Null]]) periodK periodD i D of
        Inl e \<Rightarrow> Inl e
      | Inr D1 \<Rightarrow>
          Inr (SO @ [Arr [prim_at xVal i, Num K, D1]], xD @ [prim_at xVal i],
               yD @ [Arr [Num K, D1]], D1))"

subsection \<open>Notions of the specification\<close>

text \<open>
  A bar of the specification (section 3), with finite fields, and its place in
  \<^verbatim>\<open>yData\<close>: the array \<^verbatim>\<open>[open, high, low, close]\<close>. The
  fields of a bar of the language are doubles.
\<close>

record Bar =
  bar_open :: real
  bar_high :: real
  bar_low :: real
  bar_close :: real

definition toY :: "Bar \<Rightarrow> jsval" where
  "toY b = Arr [Num (Fin (bar_open b)), Num (Fin (bar_high b)), Num (Fin (bar_low b)), Num (Fin (bar_close b))]"

definition double_bar :: "Bar \<Rightarrow> bool" where
  "double_bar b =
     (is_double (bar_open b) \<and> is_double (bar_high b) \<and> is_double (bar_low b)
      \<and> is_double (bar_close b))"

text \<open>
  The window \<open>bars[i - periodK + 1 .. i]\<close> of step 1 of the algorithm of section 4.2.
\<close>

definition window :: "'a list \<Rightarrow> int \<Rightarrow> int \<Rightarrow> 'a list" where
  "window bs periodK i = map (\<lambda>k. bs ! nat k) [i - periodK + 1 .. i]"

text \<open>
  An element of \<^verbatim>\<open>yData\<close> that is an array of exactly four numbers, and an element
  that is not \<^verbatim>\<open>null\<close> or \<^verbatim>\<open>undefined\<close>.
\<close>

fun four_numbers :: "jsval \<Rightarrow> bool" where
  "four_numbers (Arr [Num _, Num _, Num _, Num _]) = True"
| "four_numbers _ = False"

fun indexable :: "jsval \<Rightarrow> bool" where
  "indexable (Prim Undefined) = False"
| "indexable (Prim Null) = False"
| "indexable _ = True"

text \<open>
  The \<open>n\<close> values \<open>f (j - n + 1), \<dots>, f j\<close> that end at position \<open>j\<close>; the smoothed value
  of position \<open>j\<close> for the raw values \<open>Kf\<close>: \<^verbatim>\<open>null\<close> before position
  \<open>periodD - 1\<close>, the mean of the trailing \<open>periodD\<close> raw values from there on; and the raw
  value in a row of \<^verbatim>\<open>yData\<close>.
\<close>

definition trailing :: "(nat \<Rightarrow> 'a) \<Rightarrow> nat \<Rightarrow> nat \<Rightarrow> 'a list" where
  "trailing f n j = map f [j + 1 - n ..< j + 1]"

definition rowD :: "(nat \<Rightarrow> jsnum) \<Rightarrow> int \<Rightarrow> nat \<Rightarrow> prim" where
  "rowD Kf periodD j = (if int j \<ge> periodD - 1 then Num (mean (trailing Kf (nat periodD) j)) else Null)"

definition row_K :: "jsval \<Rightarrow> jsnum" where
  "row_K row = (case get_index row 0 of Inr p \<Rightarrow> ToNumber p | Inl _ \<Rightarrow> NaN)"

subsection \<open>Example data\<close>

text \<open>
  The bars and timestamps of the scenario of section 8; a flat window followed by a bar
  that moves; single bars whose close lies outside \<open>[low, high]\<close>; a bar whose range
  \<open>high - low\<close> is beyond the greatest double; series whose later elements are not
  bars of four numbers; a first bar of four fields that are not numbers; and the scenario in
  a store, in two layouts.
\<close>

definition scenario :: "Bar list" where
  "scenario = [\<lparr>bar_open = 5, bar_high = 6, bar_low = 4, bar_close = 5\<rparr>,
               \<lparr>bar_open = 7, bar_high = 8, bar_low = 5, bar_close = 7\<rparr>,
               \<lparr>bar_open = 6, bar_high = 7, bar_low = 4, bar_close = 6\<rparr>,
               \<lparr>bar_open = 9, bar_high = 10, bar_low = 5, bar_close = 9\<rparr>]"

definition timestamps :: "prim list" where
  "timestamps = [Num (Fin 1), Num (Fin 2), Num (Fin 3), Num (Fin 4)]"

definition flat_then_move :: "Bar list" where
  "flat_then_move = [\<lparr>bar_open = 10, bar_high = 10, bar_low = 10, bar_close = 10\<rparr>,
                     \<lparr>bar_open = 10, bar_high = 10, bar_low = 10, bar_close = 10\<rparr>,
                     \<lparr>bar_open = 10, bar_high = 12, bar_low = 9, bar_close = 11\<rparr>]"

definition flat_close_above :: "Bar list" where
  "flat_close_above = [\<lparr>bar_open = 10, bar_high = 10, bar_low = 10, bar_close = 12\<rparr>]"

definition close_above_high :: "Bar list" where
  "close_above_high = [\<lparr>bar_open = 5, bar_high = 6, bar_low = 4, bar_close = 7\<rparr>]"

definition wide_bar :: "Bar list" where
  "wide_bar = [\<lparr>bar_open = 0, bar_high = 2 ^ 1023, bar_low = - (2 ^ 1023), bar_close = 2 ^ 1023\<rparr>]"

definition extra_field_series :: "jsval list" where
  "extra_field_series =
     [Arr [Num (Fin 1), Num (Fin 2), Num (Fin 1), Num (Fin 1.5)],
      Arr [Num (Fin 1), Num (Fin 2), Num (Fin 1), Num (Fin 1.5), Num (Fin 9)]]"

definition null_field_series :: "jsval list" where
  "null_field_series = [Arr [Null, Null, Null, Null]]"

definition null_bar_series :: "jsval list" where
  "null_bar_series = [Arr [Num (Fin 1), Num (Fin 2), Num (Fin 1), Num (Fin 1.5)], Prim Null]"

definition mixed_series :: "jsval list" where
  "mixed_series = [Arr [Num (Fin 1), Num (Fin 2), Num (Fin 1), Num (Fin 1.5)],
                   Prim (Num (Fin 7)),
                   Arr [Num (Fin 1), Null]]"

definition scenario_heap :: heap where
  "scenario_heap =
     [map HPrim timestamps,
      [HRef 2, HRef 3, HRef 4, HRef 5],
      [HPrim (Num (Fin 5)), HPrim (Num (Fin 6)), HPrim (Num (Fin 4)), HPrim (Num (Fin 5))],
      [HPrim (Num (Fin 7)), HPrim (Num (Fin 8)), HPrim (Num (Fin 5)), HPrim (Num (Fin 7))],
      [HPrim (Num (Fin 6)), HPrim (Num (Fin 7)), HPrim (Num (Fin 4)), HPrim (Num (Fin 6))],
      [HPrim (Num (Fin 9)), HPrim (Num (Fin 10)), HPrim (Num (Fin 5)), HPrim (Num (Fin 9))]]"

definition scenario_heap_moved :: heap where
  "scenario_heap_moved =
     [[HPrim (Num (Fin 5)), HPrim (Num (Fin 6)), HPrim (Num (Fin 4)), HPrim (Num (Fin 5))],
      [HPrim (Num (Fin 7)), HPrim (Num (Fin 8)), HPrim (Num (Fin 5)), HPrim (Num (Fin 7))],
      [HPrim (Num (Fin 6)), HPrim (Num (Fin 7)), HPrim (Num (Fin 4)), HPrim (Num (Fin 6))],
      [HPrim (Num (Fin 9)), HPrim (Num (Fin 10)), HPrim (Num (Fin 5)), HPrim (Num (Fin 9))],
      [HRef 0, HRef 1, HRef 2, HRef 3],
      map HPrim timestamps]"

declare loop.simps [simp del]

declare loop_h.simps [simp del]

section \<open>Properties\<close>

subsection \<open>Rounding\<close>

lemma half_even_int: "half_even (of_int n) = n"
  by (simp add: half_even_def)

lemma half_even_bounds: "\<lfloor>x\<rfloor> \<le> half_even x" "half_even x \<le> \<lfloor>x\<rfloor> + 1"
  by (simp_all add: half_even_def Let_def)

lemma half_even_mono:
  assumes "x \<le> y"
  shows "half_even x \<le> half_even y"
proof (cases "\<lfloor>x\<rfloor> < \<lfloor>y\<rfloor>")
  case True
  have "half_even x \<le> \<lfloor>x\<rfloor> + 1" by (rule half_even_bounds)
  also have "\<dots> \<le> \<lfloor>y\<rfloor>" using True by simp
  also have "\<dots> \<le> half_even y" by (rule half_even_bounds)
  finally show ?thesis .
next
  case False
  moreover have "\<lfloor>x\<rfloor> \<le> \<lfloor>y\<rfloor>" using assms by (rule floor_mono)
  ultimately have "\<lfloor>x\<rfloor> = \<lfloor>y\<rfloor>" by simp
  with assms show ?thesis
    by (auto simp: half_even_def Let_def)
qed

lemma half_even_le: "x \<le> of_int n \<Longrightarrow> half_even x \<le> n"
  using half_even_mono [of x "of_int n"] by (simp add: half_even_int)

lemma half_even_ge: "of_int n \<le> x \<Longrightarrow> n \<le> half_even x"
  using half_even_mono [of "of_int n" x] by (simp add: half_even_int)

lemma quantum_upper:
  assumes "t = nat (bitlen \<lfloor>s\<rfloor> - 53)"
  shows "s < 2 ^ (53 + t)"
proof -
  have "bitlen \<lfloor>s\<rfloor> \<le> 53 + int t" using assms by simp
  then have "\<lfloor>s\<rfloor> < 2 ^ nat (53 + int t)"
    by (simp only: bitlen_le_iff_power)
  moreover have "nat (53 + int t) = 53 + t" by simp
  ultimately have "\<lfloor>s\<rfloor> < 2 ^ (53 + t)" by simp
  then have "s < of_int (2 ^ (53 + t))"
    by (simp only: floor_less_iff)
  then show ?thesis by simp
qed

lemma quantum_lower:
  assumes "t = nat (bitlen \<lfloor>s\<rfloor> - 53)" "0 < t"
  shows "2 ^ (52 + t) \<le> s"
proof -
  have "53 + int t \<le> bitlen \<lfloor>s\<rfloor>" using assms by simp
  then have "53 + int t \<le> 0 \<or> 2 ^ (nat (53 + int t) - 1) \<le> \<lfloor>s\<rfloor>"
    by (simp only: bitlen_ge_iff_power)
  moreover have "nat (53 + int t) - 1 = 52 + t" by simp
  ultimately have "(2::int) ^ (52 + t) \<le> \<lfloor>s\<rfloor>" by simp
  then have "of_int (2 ^ (52 + t)) \<le> s"
    by (simp only: le_floor_iff)
  then show ?thesis by simp
qed

lemma round53_upper:
  assumes "t = nat (bitlen \<lfloor>s\<rfloor> - 53)"
  shows "round53 s \<le> 2 ^ (53 + t)"
proof -
  have "s / 2 ^ t \<le> 2 ^ 53"
    using quantum_upper [OF assms] by (simp add: power_add divide_le_eq)
  then have "s / 2 ^ t \<le> of_int (2 ^ 53)" by simp
  then have "half_even (s / 2 ^ t) \<le> 2 ^ 53" by (rule half_even_le)
  then have "half_even (s / 2 ^ t) * 2 ^ t \<le> 2 ^ 53 * 2 ^ t"
    by (rule mult_right_mono) simp
  then show ?thesis
    by (simp add: round53_def Let_def power_add assms)
qed

lemma round53_lower:
  assumes "t = nat (bitlen \<lfloor>s\<rfloor> - 53)" "0 < t"
  shows "2 ^ (52 + t) \<le> round53 s"
proof -
  have "2 ^ 52 \<le> s / 2 ^ t"
    using quantum_lower [OF assms] by (simp add: power_add le_divide_eq)
  then have "of_int (2 ^ 52) \<le> s / 2 ^ t" by simp
  then have "2 ^ 52 \<le> half_even (s / 2 ^ t)" by (rule half_even_ge)
  then have "2 ^ 52 * 2 ^ t \<le> half_even (s / 2 ^ t) * 2 ^ t"
    by (rule mult_right_mono) simp
  then show ?thesis
    by (simp add: round53_def Let_def power_add assms(1))
qed

lemma round53_nonneg: "0 \<le> s \<Longrightarrow> 0 \<le> round53 s"
proof -
  assume "0 \<le> s"
  then have "of_int 0 \<le> s / 2 ^ nat (bitlen \<lfloor>s\<rfloor> - 53)" by simp
  then have "0 \<le> half_even (s / 2 ^ nat (bitlen \<lfloor>s\<rfloor> - 53))" by (rule half_even_ge)
  then show ?thesis by (simp add: round53_def Let_def)
qed

lemma round53_mono:
  assumes "s \<le> s'"
  shows "round53 s \<le> round53 s'"
proof -
  define t where "t = nat (bitlen \<lfloor>s\<rfloor> - 53)"
  define t' where "t' = nat (bitlen \<lfloor>s'\<rfloor> - 53)"
  have "\<lfloor>s\<rfloor> \<le> \<lfloor>s'\<rfloor>" using assms by (rule floor_mono)
  then have "bitlen \<lfloor>s\<rfloor> \<le> bitlen \<lfloor>s'\<rfloor>"
    by (simp add: bitlen_def floorlog_mono nat_mono)
  then have tt: "t \<le> t'" by (simp add: t_def t'_def)
  show ?thesis
  proof (cases "t = t'")
    case True
    have "s / 2 ^ t \<le> s' / 2 ^ t"
      using assms by (simp add: divide_right_mono)
    then have "half_even (s / 2 ^ t) \<le> half_even (s' / 2 ^ t)" by (rule half_even_mono)
    then have "half_even (s / 2 ^ t) * 2 ^ t \<le> half_even (s' / 2 ^ t) * 2 ^ t"
      by (rule mult_right_mono) simp
    then show ?thesis
      using True by (simp add: round53_def Let_def t_def t'_def)
  next
    case False
    with tt have lt: "t < t'" by (rule le_neq_trans)
    then have pos: "0 < t'" by simp
    have "round53 s \<le> 2 ^ (53 + t)" using t_def by (rule round53_upper)
    also have "\<dots> \<le> (2::int) ^ (52 + t')"
      using lt by (intro power_increasing) simp_all
    also have "\<dots> \<le> round53 s'" using t'_def pos by (rule round53_lower)
    finally show ?thesis .
  qed
qed

lemma round53_fix:
  assumes "0 \<le> n" "2 ^ nat (bitlen n - 53) dvd n"
  shows "round53 (of_int n) = n"
proof -
  let ?t = "nat (bitlen n - 53)"
  obtain q where q: "n = 2 ^ ?t * q" using assms(2) by (auto simp: dvd_def)
  have "real_of_int n / 2 ^ ?t = of_int q"
    by (subst q) simp
  then have "half_even (real_of_int n / 2 ^ ?t) = q"
    by (simp add: half_even_int)
  then show ?thesis
    using q by (simp add: round53_def Let_def mult.commute)
qed

lemma round53_closed: "2 ^ nat (bitlen (round53 s) - 53) dvd round53 s"
proof -
  define t where "t = nat (bitlen \<lfloor>s\<rfloor> - 53)"
  have r: "round53 s = half_even (s / 2 ^ t) * 2 ^ t" by (simp add: round53_def Let_def t_def)
  have up: "round53 s \<le> 2 ^ (53 + t)" using t_def by (rule round53_upper)
  show ?thesis
  proof (cases "round53 s = 2 ^ (53 + t)")
    case True
    have "bitlen ((2::int) ^ (53 + t) + 0) = int (53 + t) + 1"
      using bitlen_twopow_add_eq [of 0 "53 + t"] by simp
    then have "nat (bitlen (round53 s) - 53) = t + 1"
      using True by simp
    then show ?thesis
      using True by (simp add: power_add)
  next
    case False
    with up have "round53 s < 2 ^ (53 + t)" by simp
    moreover have "nat (53 + int t) = 53 + t" by simp
    ultimately have "round53 s < 2 ^ nat (53 + int t)" by simp
    then have "bitlen (round53 s) \<le> 53 + int t"
      by (simp only: bitlen_le_iff_power) simp
    then have "nat (bitlen (round53 s) - 53) \<le> t" by simp
    then have "(2::int) ^ nat (bitlen (round53 s) - 53) dvd 2 ^ t"
      by (rule le_imp_power_dvd)
    then show ?thesis
      unfolding r by (rule dvd_mult)
  qed
qed

lemma round53_idem: "0 \<le> s \<Longrightarrow> round53 (of_int (round53 s)) = round53 s"
  by (intro round53_fix round53_nonneg round53_closed)

lemma round53_dyadic:
  assumes "m < 2 ^ 53"
  shows "round53 (of_nat m * 2 ^ k) = int m * 2 ^ k"
proof (cases "m = 0")
  case True
  then show ?thesis by (simp add: round53_def half_even_def)
next
  case False
  have "bitlen (int m) \<le> 53"
    using assms less_power_nat_iff_bitlen [of m 53] by simp
  moreover have "bitlen (int m * 2 ^ k) = bitlen (int m) + int k"
    using False by (intro bitlen_pow2) simp
  ultimately have "nat (bitlen (int m * 2 ^ k) - 53) \<le> k" by simp
  then have "(2::int) ^ nat (bitlen (int m * 2 ^ k) - 53) dvd 2 ^ k"
    by (rule le_imp_power_dvd)
  then have "2 ^ nat (bitlen (int m * 2 ^ k) - 53) dvd int m * 2 ^ k"
    by (rule dvd_mult)
  then have "round53 (of_int (int m * 2 ^ k)) = int m * 2 ^ k"
    by (intro round53_fix) simp_all
  then show ?thesis by simp
qed


lemma round53_0: "round53 0 = 0"
  by (simp add: round53_def half_even_def)

lemma round_pos_0: "round_pos 0 = Fin 0"
  by (simp add: round_pos_def round53_0)

lemma round_pos_Fin:
  assumes "0 \<le> x" "round_pos x = Fin y"
  shows "y = of_int (round53 (x * 2 ^ subnormal_bits)) / 2 ^ subnormal_bits"
    and "0 \<le> round53 (x * 2 ^ subnormal_bits)"
    and "round53 (x * 2 ^ subnormal_bits) < 2 ^ (1024 + subnormal_bits)"
proof -
  show "0 \<le> round53 (x * 2 ^ subnormal_bits)"
    using assms(1) by (intro round53_nonneg) simp
  show "y = of_int (round53 (x * 2 ^ subnormal_bits)) / 2 ^ subnormal_bits"
    and "round53 (x * 2 ^ subnormal_bits) < 2 ^ (1024 + subnormal_bits)"
    using assms(2) by (simp_all add: round_pos_def Let_def split: if_splits)
qed

lemma round_pos_idem:
  assumes "0 \<le> x" "round_pos x = Fin y"
  shows "round_pos y = Fin y" "0 \<le> y"
proof -
  define r where "r = round53 (x * 2 ^ subnormal_bits)"
  note f = round_pos_Fin [OF assms, folded r_def]
  have "y * 2 ^ subnormal_bits = of_int r" by (simp add: f(1))
  moreover have "round53 (of_int r) = r"
    unfolding r_def using assms(1) by (intro round53_idem) simp
  ultimately show "round_pos y = Fin y"
    using f(3) by (simp add: round_pos_def f(1))
  show "0 \<le> y" using f(2) by (simp add: f(1))
qed

lemma round_pos_mono:
  assumes "x \<le> y"
  shows "js_le (round_pos x) (round_pos y)"
proof -
  have "round53 (x * 2 ^ subnormal_bits) \<le> round53 (y * 2 ^ subnormal_bits)"
    using assms by (intro round53_mono) simp
  then show ?thesis
    by (simp add: round_pos_def Let_def divide_right_mono)
qed

lemma round_pos_sign:
  assumes "0 \<le> x"
  shows "js_le (Fin 0) (round_pos x)"
  using round_pos_mono [of 0 x] assms by (simp add: round_pos_0)

lemma js_le_neg: "js_le a b \<Longrightarrow> js_le (js_neg b) (js_neg a)"
  by (cases "(a, b)" rule: js_le.cases) simp_all

lemma js_le_trans: "js_le a b \<Longrightarrow> js_le b c \<Longrightarrow> js_le a c"
  by (cases a; cases b; cases c) simp_all

lemma js_neg_neg: "js_neg (js_neg a) = a"
  by (cases a) simp_all

lemma round64_0: "round64 0 = Fin 0"
  by (simp add: round64_def round_pos_0)

lemma round64_neg: "round64 (- x) = js_neg (round64 x)"
proof -
  consider "x < 0" | "x = 0" | "0 < x" by linarith
  then show ?thesis
  proof cases
    case 1 then show ?thesis by (simp add: round64_def js_neg_neg)
  next
    case 2 then show ?thesis by (simp add: round64_0)
  next
    case 3 then show ?thesis by (simp add: round64_def)
  qed
qed

lemma round64_mono:
  assumes "x \<le> y"
  shows "js_le (round64 x) (round64 y)"
proof -
  consider "0 \<le> x" | "x < 0" "0 \<le> y" | "x < 0" "y < 0" by linarith
  then show ?thesis
  proof cases
    case 1
    with assms show ?thesis by (simp add: round64_def round_pos_mono)
  next
    case 2
    have "js_le (Fin 0) (round_pos (- x))" using 2 by (intro round_pos_sign) simp
    then have "js_le (js_neg (round_pos (- x))) (js_neg (Fin 0))" by (rule js_le_neg)
    then have "js_le (js_neg (round_pos (- x))) (Fin 0)" by simp
    moreover have "js_le (Fin 0) (round_pos y)" using 2 by (intro round_pos_sign)
    ultimately have "js_le (js_neg (round_pos (- x))) (round_pos y)"
      by (rule js_le_trans)
    with 2 show ?thesis by (simp add: round64_def)
  next
    case 3
    have "js_le (round_pos (- y)) (round_pos (- x))"
      using 3 assms by (intro round_pos_mono) simp_all
    then have "js_le (js_neg (round_pos (- x))) (js_neg (round_pos (- y)))" by (rule js_le_neg)
    with 3 show ?thesis by (simp add: round64_def)
  qed
qed

lemma round64_idem:
  assumes "round64 x = Fin y"
  shows "is_double y"
proof (cases "x < 0")
  case False
  with assms have "round_pos x = Fin y" "0 \<le> x" by (simp_all add: round64_def)
  then have "round_pos y = Fin y" "0 \<le> y" using round_pos_idem by blast+
  then show ?thesis by (simp add: is_double_def round64_def)
next
  case True
  with assms have "js_neg (round_pos (- x)) = Fin y" by (simp add: round64_def)
  then have "round_pos (- x) = Fin (- y)" by (cases "round_pos (- x)") simp_all
  moreover have "0 \<le> - x" using True by simp
  ultimately have "round_pos (- y) = Fin (- y)" "0 \<le> - y" using round_pos_idem by blast+
  then show ?thesis
    by (cases "y = 0") (simp_all add: is_double_def round64_def)
qed

lemma is_double_neg: "is_double a \<Longrightarrow> is_double (- a)"
  by (simp add: is_double_def round64_neg)

lemma round_pos_dyadic:
  assumes "m < 2 ^ 53" "k \<le> 971 + subnormal_bits"
  shows "round_pos (of_nat m * 2 ^ k / 2 ^ subnormal_bits) = Fin (of_nat m * 2 ^ k / 2 ^ subnormal_bits)"
proof -
  have "round53 (of_nat m * 2 ^ k) = int m * 2 ^ k"
    using assms(1) by (rule round53_dyadic)
  moreover have "int m * 2 ^ k < 2 ^ 53 * 2 ^ (971 + subnormal_bits)"
    using assms by (intro mult_less_le_imp_less power_increasing) simp_all
  moreover have "(2::int) ^ 53 * 2 ^ (971 + subnormal_bits) = 2 ^ (1024 + subnormal_bits)"
  proof -
    have "1024 + subnormal_bits = 53 + (971 + subnormal_bits)" by simp
    then have "(2::int) ^ (1024 + subnormal_bits) = 2 ^ (53 + (971 + subnormal_bits))"
      by (rule arg_cong)
    then show ?thesis by (simp only: power_add)
  qed
  ultimately show ?thesis
    by (simp add: round_pos_def)
qed

lemma round64_dyadic_mul:
  assumes "m < 2 ^ 53" "k \<le> 971"
  shows "round64 (of_nat m * 2 ^ k) = Fin (of_nat m * 2 ^ k)"
proof -
  have "of_nat m * 2 ^ (k + subnormal_bits) / 2 ^ subnormal_bits = (of_nat m * 2 ^ k :: real)"
    by (simp add: power_add)
  moreover have "\<not> real m * 2 ^ k < 0" by (simp add: not_less)
  ultimately show ?thesis
    using round_pos_dyadic [of m "k + subnormal_bits"] assms by (simp add: round64_def)
qed

lemma round64_dyadic_div:
  assumes "m < 2 ^ 53" "k \<le> 1074"
  shows "round64 (of_nat m / 2 ^ k) = Fin (of_nat m / 2 ^ k)"
proof -
  have "(2::real) ^ subnormal_bits = 2 ^ k * 2 ^ (subnormal_bits - k)"
    using assms(2) by (simp add: subnormal_bits_def flip: power_add)
  then have "of_nat m * 2 ^ (subnormal_bits - k) / 2 ^ subnormal_bits = (of_nat m / 2 ^ k :: real)"
    by simp
  moreover have "\<not> real m / 2 ^ k < 0" by (simp add: not_less)
  moreover have "subnormal_bits - k \<le> 971 + subnormal_bits" by simp
  ultimately show ?thesis
    using round_pos_dyadic [of m "subnormal_bits - k"] assms(1) by (simp add: round64_def)
qed

lemma round64_numeral:
  "numeral n < (2::nat) ^ 53 \<Longrightarrow> round64 (numeral n) = Fin (numeral n)"
  using round64_dyadic_mul [of "numeral n" 0] by simp

lemma round64_1: "round64 1 = Fin 1"
  using round64_dyadic_mul [of 1 0] by simp

lemma round64_half:
  "numeral n < (2::nat) ^ 53 \<Longrightarrow> round64 (numeral n / 2) = Fin (numeral n / 2)"
  "round64 (1 / 2) = Fin (1 / 2)"
  using round64_dyadic_div [of "numeral n" 1] round64_dyadic_div [of 1 1] by simp_all

lemma round64_overflow:
  assumes "2 ^ 1024 \<le> x"
  shows "round64 x = PInf"
proof -
  have "round53 (of_nat 1 * 2 ^ (1024 + subnormal_bits)) = int 1 * 2 ^ (1024 + subnormal_bits)"
    by (rule round53_dyadic) simp
  moreover have "round53 (2 ^ (1024 + subnormal_bits)) \<le> round53 (x * 2 ^ subnormal_bits)"
  proof (rule round53_mono)
    have "(2::real) ^ (1024 + subnormal_bits) = 2 ^ 1024 * 2 ^ subnormal_bits"
      by (rule power_add)
    also have "\<dots> \<le> x * 2 ^ subnormal_bits" using assms by (intro mult_right_mono) simp_all
    finally show "(2::real) ^ (1024 + subnormal_bits) \<le> x * 2 ^ subnormal_bits" .
  qed
  moreover have "0 \<le> x" using assms by (rule order_trans [rotated]) simp
  ultimately show ?thesis
    by (simp add: round64_def round_pos_def)
qed

lemma round64_normal:
  assumes "2 ^ 52 \<le> x * 2 ^ u" "x * 2 ^ u < 2 ^ 53" "u \<le> 1074"
  shows "round64 x = Fin (of_int (half_even (x * 2 ^ u)) / 2 ^ u)"
proof -
  define d where "d = subnormal_bits - u"
  define y where "y = x * 2 ^ u"
  have e: "(2::real) ^ subnormal_bits = 2 ^ u * 2 ^ d"
    using assms(3) by (simp add: d_def subnormal_bits_def flip: power_add)
  have s: "x * 2 ^ subnormal_bits = y * 2 ^ d"
    by (simp add: e y_def)
  have x0: "0 \<le> x"
  proof -
    have "0 \<le> x * 2 ^ u" using assms(1) by (rule order_trans [rotated]) simp
    moreover have "0 < (2::real) ^ u" by simp
    ultimately show ?thesis by (simp only: zero_le_mult_iff) linarith
  qed
  have lo: "(2::real) ^ (52 + d) \<le> y * 2 ^ d"
    using assms(1) by (simp add: power_add y_def)
  have hi: "y * 2 ^ d < 2 ^ (53 + d)"
    using assms(2) by (simp add: power_add y_def)
  have "of_int (2 ^ (52 + d)) \<le> y * 2 ^ d" using lo by simp
  then have lo': "(2::int) ^ (52 + d) \<le> \<lfloor>y * 2 ^ d\<rfloor>" by (simp only: le_floor_iff)
  have "y * 2 ^ d < of_int (2 ^ (53 + d))" using hi by simp
  then have hi': "\<lfloor>y * 2 ^ d\<rfloor> < 2 ^ (53 + d)" by (simp only: floor_less_iff)
  have n1: "nat (53 + int d) = 53 + d" and n2: "nat (53 + int d) - 1 = 52 + d" by simp_all
  have "\<lfloor>y * 2 ^ d\<rfloor> < 2 ^ nat (53 + int d)" using hi' by (simp only: n1)
  then have "bitlen \<lfloor>y * 2 ^ d\<rfloor> \<le> 53 + int d"
    by (simp only: bitlen_le_iff_power) simp
  moreover have "(2::int) ^ (nat (53 + int d) - 1) \<le> \<lfloor>y * 2 ^ d\<rfloor>" using lo' by (simp only: n2)
  then have "53 + int d \<le> bitlen \<lfloor>y * 2 ^ d\<rfloor>"
    by (simp only: bitlen_ge_iff_power) simp
  ultimately have "bitlen \<lfloor>y * 2 ^ d\<rfloor> = 53 + int d" by simp
  then have t: "nat (bitlen \<lfloor>y * 2 ^ d\<rfloor> - 53) = d" by simp
  have r: "round53 (y * 2 ^ d) = half_even y * 2 ^ d"
    by (simp add: round53_def Let_def t)
  have "y \<le> of_int (2 ^ 53)" using assms(2) by (simp add: y_def)
  then have "half_even y \<le> 2 ^ 53" by (rule half_even_le)
  then have "half_even y * 2 ^ d \<le> 2 ^ 53 * 2 ^ d"
    by (rule mult_right_mono) simp
  also have "\<dots> = (2::int) ^ (53 + d)" by (simp add: power_add)
  also have "\<dots> < 2 ^ (1024 + subnormal_bits)"
    by (intro power_strict_increasing) (simp_all add: d_def)
  finally have small: "\<not> 2 ^ (1024 + subnormal_bits) \<le> half_even y * 2 ^ d" by simp
  have "real_of_int (half_even y * 2 ^ d) / 2 ^ subnormal_bits = of_int (half_even y) / 2 ^ u"
    by (simp add: e)
  then show ?thesis
    using x0 small by (simp add: round64_def round_pos_def s r y_def [symmetric])
qed

lemma is_double_grid:
  assumes "is_double a"
  obtains n :: int where "a = of_int n / 2 ^ subnormal_bits"
proof (cases "a < 0")
  case False
  with assms have "round_pos a = Fin a" "0 \<le> a" by (simp_all add: is_double_def round64_def)
  then have "a = of_int (round53 (a * 2 ^ subnormal_bits)) / 2 ^ subnormal_bits"
    using round_pos_Fin(1) by blast
  then show ?thesis by (rule that)
next
  case True
  with assms have "js_neg (round_pos (- a)) = Fin a" by (simp add: is_double_def round64_def)
  then have "round_pos (- a) = Fin (- a)" by (cases "round_pos (- a)") simp_all
  moreover have "0 \<le> - a" using True by simp
  ultimately have "- a = of_int (round53 (- a * 2 ^ subnormal_bits)) / 2 ^ subnormal_bits"
    using round_pos_Fin(1) by blast
  then have "a = - (of_int (round53 (- a * 2 ^ subnormal_bits)) / 2 ^ subnormal_bits)"
    by linarith
  then have "a = of_int (- round53 (- a * 2 ^ subnormal_bits)) / 2 ^ subnormal_bits" by simp
  then show ?thesis by (rule that)
qed

lemma round64_diff_pos:
  assumes "is_double a" "is_double b" "a < b"
  shows "js_le (Fin (1 / 2 ^ subnormal_bits)) (round64 (b - a))"
proof -
  define P :: real where "P = 2 ^ subnormal_bits"
  have P: "0 < P" by (simp add: P_def)
  obtain n :: int where a: "a = of_int n / P"
    using assms(1) unfolding P_def by (rule is_double_grid)
  obtain m :: int where b: "b = of_int m / P"
    using assms(2) unfolding P_def by (rule is_double_grid)
  have "a * P < b * P" using assms(3) P by (rule mult_strict_right_mono)
  then have "real_of_int n < of_int m" using P by (simp add: a b)
  then have "n < m" by (simp only: of_int_less_iff)
  then have "1 \<le> m - n" by simp
  then have "(1::real) \<le> of_int (m - n)" by (simp only: of_int_1_le_iff)
  then have "1 / P \<le> of_int (m - n) / P"
    using P by (intro divide_right_mono) simp_all
  also have "\<dots> = b - a" by (simp add: a b diff_divide_distrib)
  finally have "js_le (round64 (1 / P)) (round64 (b - a))" by (rule round64_mono)
  moreover have "round64 (of_nat 1 / 2 ^ subnormal_bits) = Fin (of_nat 1 / 2 ^ subnormal_bits)"
    by (rule round64_dyadic_div) (simp_all add: subnormal_bits_def)
  ultimately show ?thesis by (simp add: P_def)
qed

lemma is_double_num_round64: "is_double_num (round64 x)"
  by (cases "round64 x") (simp_all add: round64_idem)

lemma js_mul_double: "is_double_num (js_mul a b)"
  by (cases "(a, b)" rule: js_mul.cases) (simp_all add: is_double_num_round64 signed_inf_def)

lemma is_double_numeral: "numeral n < (2::nat) ^ 53 \<Longrightarrow> is_double (numeral n)"
  by (simp add: is_double_def round64_numeral)

lemma is_double_0: "is_double 0"
  by (simp add: is_double_def round64_0)

lemmas round_vals = round64_0 round64_1 round64_numeral round64_half

subsection \<open>The loop and its rows\<close>

lemma slice_map: "slice (map f xs) a b = map f (slice xs a b)"
  by (simp add: slice_def Let_def take_map drop_map)

lemma slice_window:
  assumes "1 \<le> periodK" "periodK - 1 \<le> i" "i < int (length bs)"
  shows "slice bs (i - periodK + 1) (i + 1) = window bs periodK i"
proof (rule nth_equalityI)
  show "length (slice bs (i - periodK + 1) (i + 1)) = length (window bs periodK i)"
    using assms by (simp add: slice_def window_def Let_def)
next
  fix j assume "j < length (slice bs (i - periodK + 1) (i + 1))"
  then have j: "int j < periodK"
    using assms by (simp add: slice_def Let_def)
  have "slice bs (i - periodK + 1) (i + 1) ! j = bs ! (nat (i - periodK + 1) + j)"
    using assms j by (simp add: slice_def Let_def)
  moreover have "[i - periodK + 1 .. i] ! j = i - periodK + 1 + int j"
    using j by (intro nth_upto) simp
  then have "window bs periodK i ! j = bs ! nat (i - periodK + 1 + int j)"
    using j by (simp add: window_def)
  moreover have "nat (i - periodK + 1 + int j) = nat (i - periodK + 1) + j"
    using assms by (simp add: nat_add_distrib)
  ultimately show "slice bs (i - periodK + 1) (i + 1) ! j = window bs periodK i ! j"
    by simp
qed

lemma length_window: "0 \<le> periodK \<Longrightarrow> length (window bs periodK i) = nat periodK"
  by (simp add: window_def)

lemma row_samples_rows:
  "\<forall>r \<in> set rows. isArray r \<Longrightarrow> row_samples rows = Inr (map row_K rows)"
proof (induction rows)
  case Nil
  show ?case by simp
next
  case (Cons r rows)
  then obtain fs where "r = Arr fs" by (cases r) auto
  with Cons show ?case by (simp add: row_K_def)
qed

lemma foldl_js_add_NaN: "foldl js_add NaN xs = NaN"
  by (induction xs) auto

lemma js_add_NaN_right: "js_add a NaN = NaN"
  by (cases a) auto

lemma foldl_js_add_mem_NaN: "NaN \<in> set xs \<Longrightarrow> foldl js_add a xs = NaN"
  by (induction xs arbitrary: a) (auto simp: foldl_js_add_NaN js_add_NaN_right)

lemma mean_NaN: "NaN \<in> set xs \<Longrightarrow> mean xs = NaN"
  by (simp add: mean_def foldl_js_add_mem_NaN)

lemma mean_single: "is_double_num a \<Longrightarrow> mean [a] = a"
  by (cases a) (simp_all add: mean_def signed_inf_def is_double_def)

lemma sma_full: "1 \<le> period \<Longrightarrow> length samples = nat period \<Longrightarrow> sma samples period = [mean samples]"
  by (simp add: sma_def)

lemma prim_at_single: "prim_at [p] 0 = p"
  by (simp add: prim_at_def)

lemma slice_from_last:
  assumes "0 < n" "n \<le> int (length xs)"
  shows "slice_from xs (- n) = drop (length xs - nat n) xs"
  using assms by (simp add: slice_from_def slice_def Let_def nat_diff_distrib)

lemma calcD_rows:
  assumes "1 \<le> periodD" "map row_K yD1 = map Kf [0..<Suc m]" "\<forall>r\<in>set yD1. isArray r"
  shows "calcD xD1 yD1 periodK periodD (int m + periodK - 1) D =
         Inr (if int m \<ge> periodD - 1 then Num (mean (trailing Kf (nat periodD) m)) else D)"
proof (cases "int m \<ge> periodD - 1")
  case False
  then show ?thesis by (simp add: calcD_def)
next
  case True
  have len: "length yD1 = Suc m"
    using assms(2) by (metis length_map length_upt diff_zero)
  let ?n = "Suc m - nat periodD"
  have sl: "slice_from yD1 (- periodD) = drop ?n yD1"
    using slice_from_last [of periodD yD1] assms(1) True len by simp
  have "\<forall>r\<in>set (drop ?n yD1). isArray r"
    using assms(3) by (meson in_set_dropD)
  then have "row_samples (drop ?n yD1) = Inr (map row_K (drop ?n yD1))"
    by (rule row_samples_rows)
  also have "map row_K (drop ?n yD1) = drop ?n (map Kf [0..<Suc m])"
    by (simp only: assms(2) [symmetric] drop_map)
  also have "\<dots> = trailing Kf (nat periodD) m"
    by (simp add: trailing_def drop_map del: upt_Suc)
  finally have rs: "row_samples (drop ?n yD1) = Inr (trailing Kf (nat periodD) m)" .
  have "length (trailing Kf (nat periodD) m) = nat periodD"
    using True assms(1) by (simp add: trailing_def)
  then have "sma (trailing Kf (nat periodD) m) periodD = [mean (trailing Kf (nat periodD) m)]"
    using assms(1) by (simp add: sma_full)
  with rs sl True show ?thesis
    by (simp add: calcD_def SMA_getValues_def prim_at_single)
qed

lemma loop_rows:
  fixes Kf :: "nat \<Rightarrow> jsnum"
  assumes pD: "1 \<le> periodD"
    and K: "\<And>j. j < N \<Longrightarrow> calcK yVal periodK (int j + periodK - 1) = Inr (Kf j)"
    and N: "N = nat (int (length yVal) - periodK + 1)"
    and m: "m \<le> N"
  shows "loop xVal yVal periodK periodD (int m + periodK - 1)
           (map (\<lambda>j. Arr [prim_at xVal (int j + periodK - 1), Num (Kf j), rowD Kf periodD j]) [0..<m],
            map (\<lambda>j. prim_at xVal (int j + periodK - 1)) [0..<m],
            map (\<lambda>j. Arr [Num (Kf j), rowD Kf periodD j]) [0..<m],
            if m = 0 then Null else rowD Kf periodD (m - 1))
         = Inr (map (\<lambda>j. Arr [prim_at xVal (int j + periodK - 1), Num (Kf j), rowD Kf periodD j]) [0..<N],
            map (\<lambda>j. prim_at xVal (int j + periodK - 1)) [0..<N],
            map (\<lambda>j. Arr [Num (Kf j), rowD Kf periodD j]) [0..<N],
            if N = 0 then Null else rowD Kf periodD (N - 1))"
  using m
proof (induction m rule: inc_induct)
  case base
  have "\<not> int N + periodK - 1 < int (length yVal)"
    using N by simp
  then show ?case
    by (subst loop.simps) simp
next
  case (step m)
  let ?i = "int m + periodK - 1"
  let ?yD1 = "map (\<lambda>j. Arr [Num (Kf j), rowD Kf periodD j]) [0..<m] @ [Arr [Num (Kf m), Null]]"
  have i: "?i < int (length yVal)"
    using step.hyps(2) N by simp
  have below: "\<not> int m \<ge> periodD - 1 \<Longrightarrow> (if m = 0 then Null else rowD Kf periodD (m - 1)) = Null"
    by (simp add: rowD_def)
  have "map row_K ?yD1 = map Kf [0..<Suc m]"
    by (simp add: row_K_def prim_at_def)
  moreover have "\<forall>r\<in>set ?yD1. isArray r"
    by auto
  ultimately have D: "calcD xD1 ?yD1 periodK periodD ?i (if m = 0 then Null else rowD Kf periodD (m - 1))
      = Inr (rowD Kf periodD m)" for xD1
    using calcD_rows [OF pD, of ?yD1 Kf m xD1 periodK] below
    by (simp add: rowD_def)
  have next_i: "?i + 1 = int (Suc m) + periodK - 1"
    by simp
  have upd: "?yD1[length ?yD1 - 1 := Arr [Num (Kf m), rowD Kf periodD m]]
      = map (\<lambda>j. Arr [Num (Kf j), rowD Kf periodD j]) [0..<Suc m]"
    by (simp add: list_update_append)
  have N0: "N \<noteq> 0"
    using step.hyps(2) by simp
  have "loop xVal yVal periodK periodD ?i
           (map (\<lambda>j. Arr [prim_at xVal (int j + periodK - 1), Num (Kf j), rowD Kf periodD j]) [0..<m],
            map (\<lambda>j. prim_at xVal (int j + periodK - 1)) [0..<m],
            map (\<lambda>j. Arr [Num (Kf j), rowD Kf periodD j]) [0..<m],
            if m = 0 then Null else rowD Kf periodD (m - 1))
      = loop xVal yVal periodK periodD (int (Suc m) + periodK - 1)
           (map (\<lambda>j. Arr [prim_at xVal (int j + periodK - 1), Num (Kf j), rowD Kf periodD j]) [0..<Suc m],
            map (\<lambda>j. prim_at xVal (int j + periodK - 1)) [0..<Suc m],
            map (\<lambda>j. Arr [Num (Kf j), rowD Kf periodD j]) [0..<Suc m],
            rowD Kf periodD m)"
    apply (subst loop.simps)
    apply (simp only: i if_True K [OF step.hyps(2)] sum.case Let_def D next_i upd)
    apply simp
    done
  also have "\<dots> = Inr (map (\<lambda>j. Arr [prim_at xVal (int j + periodK - 1), Num (Kf j), rowD Kf periodD j]) [0..<N],
            map (\<lambda>j. prim_at xVal (int j + periodK - 1)) [0..<N],
            map (\<lambda>j. Arr [Num (Kf j), rowD Kf periodD j]) [0..<N],
            if N = 0 then Null else rowD Kf periodD (N - 1))"
    using step.IH by simp
  finally show ?case .
qed

lemma getValues_rows:
  fixes Kf :: "nat \<Rightarrow> jsnum"
  assumes pD: "1 \<le> periodD"
    and len: "periodK \<le> int (length ys)"
    and first: "isArray (val_at ys 0)" "js_length (val_at ys 0) = 4"
    and K: "\<And>j. j < N \<Longrightarrow> calcK ys periodK (int j + periodK - 1) = Inr (Kf j)"
    and N: "N = nat (int (length ys) - periodK + 1)"
  shows "getValues \<lparr>xData = xs, yData = ys\<rparr> \<lparr>periods = (periodK, periodD)\<rparr> =
         Inr (Some \<lparr>xData = map (\<lambda>j. prim_at xs (int j + periodK - 1)) [0..<N],
                     yData = map (\<lambda>j. Arr [Num (Kf j), rowD Kf periodD j]) [0..<N],
                     values = map (\<lambda>j. Arr [prim_at xs (int j + periodK - 1), Num (Kf j),
                                             rowD Kf periodD j]) [0..<N]\<rparr>)"
proof -
  have "loop xs ys periodK periodD (periodK - 1) ([], [], [], Null)
      = Inr (map (\<lambda>j. Arr [prim_at xs (int j + periodK - 1), Num (Kf j), rowD Kf periodD j]) [0..<N],
            map (\<lambda>j. prim_at xs (int j + periodK - 1)) [0..<N],
            map (\<lambda>j. Arr [Num (Kf j), rowD Kf periodD j]) [0..<N],
            if N = 0 then Null else rowD Kf periodD (N - 1))"
    using loop_rows [OF pD K N, of 0 xs] by simp
  with len first show ?thesis
    by (simp add: getValues_def)
qed

lemma Math_min_Fin: "Math_min (Fin a) (Fin b) = Fin (min a b)"
  by (simp add: Math_min_def min_def)

lemma Math_max_Fin: "Math_max (Fin a) (Fin b) = Fin (max a b)"
  by (simp add: Math_max_def max_def)

lemma get_index_toY:
  "get_index (toY b) low = Inr (Num (Fin (bar_low b)))"
  "get_index (toY b) high = Inr (Num (Fin (bar_high b)))"
  "get_index (toY b) close = Inr (Num (Fin (bar_close b)))"
  by (simp_all add: toY_def low_def high_def close_def prim_at_def)

lemma getArrayExtremes_toY:
  "w \<noteq> [] \<Longrightarrow>
   getArrayExtremes (map toY w) low high =
     Inr (Fin (Min (set (map bar_low w))), Fin (Max (set (map bar_high w))))"
proof (induction w)
  case Nil
  then show ?case by simp
next
  case (Cons b w)
  show ?case
  proof (cases "w = []")
    case True
    then show ?thesis by (simp add: get_index_toY)
  next
    case False
    with Cons.IH show ?thesis
      by (simp add: get_index_toY Math_min_Fin Math_max_Fin)
  qed
qed

lemma calcK_toY:
  assumes "1 \<le> periodK" "periodK - 1 \<le> i" "i < int (length bs)"
  shows "calcK (map toY bs) periodK i =
         Inr (js_mul (js_div (js_sub (Fin (bar_close (bs ! nat i)))
                                     (Fin (Min (set (map bar_low (window bs periodK i))))))
                             (js_sub (Fin (Max (set (map bar_high (window bs periodK i)))))
                                     (Fin (Min (set (map bar_low (window bs periodK i)))))))
                     (Fin 100))"
proof -
  have "window bs periodK i \<noteq> []"
    using length_window [of periodK bs i] assms(1) by auto
  then have "getArrayExtremes (map toY (window bs periodK i)) low high =
     Inr (Fin (Min (set (map bar_low (window bs periodK i)))),
          Fin (Max (set (map bar_high (window bs periodK i)))))"
    by (rule getArrayExtremes_toY)
  moreover have "val_at (map toY bs) i = toY (bs ! nat i)"
    using assms by (simp add: val_at_def)
  ultimately show ?thesis
    by (simp add: calcK_def slice_map slice_window [OF assms] get_index_toY)
qed

lemma get_index_indexable: "indexable b \<Longrightarrow> \<exists>p. get_index b k = Inr p"
  by (cases "(b, k)" rule: get_index.cases) auto

lemma getArrayExtremes_total:
  "w \<noteq> [] \<Longrightarrow> \<forall>b\<in>set w. indexable b \<Longrightarrow> \<exists>e. getArrayExtremes w lo hi = Inr e"
proof (induction w)
  case Nil
  then show ?case by simp
next
  case (Cons b w)
  obtain p q where pq: "get_index b lo = Inr p" "get_index b hi = Inr q"
    using Cons.prems(2) get_index_indexable [of b] by (metis list.set_intros(1))
  show ?case
  proof (cases "w = []")
    case True
    with pq show ?thesis by simp
  next
    case False
    with Cons obtain e where "getArrayExtremes w lo hi = Inr e" by auto
    with pq False show ?thesis by simp
  qed
qed

lemma set_slice: "set (slice xs a b) \<subseteq> set xs"
  unfolding slice_def Let_def
  by (meson set_take_subset set_drop_subset subset_trans)

lemma calcK_total:
  assumes "1 \<le> periodK" "periodK - 1 \<le> i" "i < int (length ys)" "\<forall>b\<in>set ys. indexable b"
  shows "\<exists>k. calcK ys periodK i = Inr k"
proof -
  let ?w = "slice ys (i - periodK + 1) (i + 1)"
  have "?w \<noteq> []"
    using slice_window [OF assms(1-3)] length_window [of periodK ys i] assms(1) by auto
  moreover have "\<forall>b\<in>set ?w. indexable b"
    using assms(4) set_slice [of ys] by blast
  ultimately obtain e where e: "getArrayExtremes ?w low high = Inr e"
    using getArrayExtremes_total by blast
  have "indexable (val_at ys i)"
    using assms by (simp add: val_at_def)
  then obtain c where "get_index (val_at ys i) close = Inr c"
    using get_index_indexable by blast
  with e show ?thesis
    by (simp add: calcK_def Let_def)
qed

lemma four_numbers_shape:
  assumes "four_numbers b"
  shows "indexable b" "isArray b" "js_length b = 4"
  using assms by (induction b rule: four_numbers.induct) simp_all

lemma four_numbers_toY: "four_numbers (toY b)"
  by (simp add: toY_def)

lemma getValues_indexable:
  assumes "1 \<le> periodK" "1 \<le> periodD" "periodK \<le> int (length ys)"
    and "isArray (val_at ys 0)" "js_length (val_at ys 0) = 4"
    and "\<forall>b\<in>set ys. indexable b"
    and N: "N = nat (int (length ys) - periodK + 1)"
  obtains Kf :: "nat \<Rightarrow> jsnum" where
    "\<And>j. j < N \<Longrightarrow> calcK ys periodK (int j + periodK - 1) = Inr (Kf j)"
    "getValues \<lparr>xData = xs, yData = ys\<rparr> \<lparr>periods = (periodK, periodD)\<rparr> =
         Inr (Some \<lparr>xData = map (\<lambda>j. prim_at xs (int j + periodK - 1)) [0..<N],
                     yData = map (\<lambda>j. Arr [Num (Kf j), rowD Kf periodD j]) [0..<N],
                     values = map (\<lambda>j. Arr [prim_at xs (int j + periodK - 1), Num (Kf j),
                                             rowD Kf periodD j]) [0..<N]\<rparr>)"
proof -
  define Kf where "Kf j = projr (calcK ys periodK (int j + periodK - 1))" for j
  have K: "calcK ys periodK (int j + periodK - 1) = Inr (Kf j)" if "j < N" for j
  proof -
    have "\<exists>k. calcK ys periodK (int j + periodK - 1) = Inr k"
      using that N assms(1,6) by (intro calcK_total) auto
    then show ?thesis by (auto simp: Kf_def)
  qed
  from getValues_rows [OF assms(2,3,4,5) K N, of xs] K that show thesis
    by blast
qed

lemma val_at_0: "xs \<noteq> [] \<Longrightarrow> val_at xs 0 = xs ! 0"
  by (simp add: val_at_def)

lemma getValues_toY:
  assumes "1 \<le> periodK" "1 \<le> periodD" "periodK \<le> int (length bs)"
    and N: "N = nat (int (length bs) - periodK + 1)"
    and Kf: "Kf = (\<lambda>j. let i = int j + periodK - 1;
                          LL = Min (set (map bar_low (window bs periodK i)));
                          HH = Max (set (map bar_high (window bs periodK i)))
                      in js_mul (js_div (js_sub (Fin (bar_close (bs ! nat i))) (Fin LL))
                                        (js_sub (Fin HH) (Fin LL))) (Fin 100))"
  shows "getValues \<lparr>xData = xs, yData = map toY bs\<rparr> \<lparr>periods = (periodK, periodD)\<rparr> =
         Inr (Some \<lparr>xData = map (\<lambda>j. prim_at xs (int j + periodK - 1)) [0..<N],
                     yData = map (\<lambda>j. Arr [Num (Kf j), rowD Kf periodD j]) [0..<N],
                     values = map (\<lambda>j. Arr [prim_at xs (int j + periodK - 1), Num (Kf j),
                                             rowD Kf periodD j]) [0..<N]\<rparr>)"
proof -
  have ne: "bs \<noteq> []" using assms(1,3) by auto
  then have first: "isArray (val_at (map toY bs) 0)" "js_length (val_at (map toY bs) 0) = 4"
    by (simp_all add: val_at_def toY_def)
  have K: "calcK (map toY bs) periodK (int j + periodK - 1) = Inr (Kf j)" if "j < N" for j
    using that assms(1,3) N by (simp add: calcK_toY Kf Let_def)
  show ?thesis
    using getValues_rows [OF assms(2) _ first K, of N xs] assms(3) N by simp
qed

lemma trailing_single: "trailing f (Suc 0) j = [f j]"
  by (simp add: trailing_def)

lemma trailing_cong:
  assumes "\<And>l. l \<le> j \<Longrightarrow> f l = g l"
  shows "trailing f n j = trailing g n j"
  using assms by (auto simp: trailing_def)

lemma four_numbers_series:
  assumes "1 \<le> periodK" "periodK \<le> int (length ys)" "\<forall>b\<in>set ys. four_numbers b"
  shows "isArray (val_at ys 0)" "js_length (val_at ys 0) = 4" "\<forall>b\<in>set ys. indexable b"
proof -
  have "ys \<noteq> []" using assms(1,2) by auto
  then have "four_numbers (val_at ys 0)"
    using assms(3) by (simp add: val_at_0)
  then show "isArray (val_at ys 0)" "js_length (val_at ys 0) = 4"
    by (rule four_numbers_shape)+
  show "\<forall>b\<in>set ys. indexable b"
    using assms(3) four_numbers_shape(1) by blast
qed

lemma Min_le_window:
  assumes "1 \<le> periodK" "periodK - 1 \<le> i" "i < int (length bs)"
  shows "Min (set (map bar_low (window bs periodK i))) \<le> bar_low (bs ! nat i)"
    and "bar_high (bs ! nat i) \<le> Max (set (map bar_high (window bs periodK i)))"
proof -
  have "i \<in> set [i - periodK + 1 .. i]"
    using assms(1) by simp
  then have "bs ! nat i \<in> set (window bs periodK i)"
    unfolding window_def by (metis (no_types, lifting) image_eqI set_map)
  then show "Min (set (map bar_low (window bs periodK i))) \<le> bar_low (bs ! nat i)"
    and "bar_high (bs ! nat i) \<le> Max (set (map bar_high (window bs periodK i)))"
    by simp_all
qed

lemmas eval_defs = getValues_def val_at_def calcK_def calcD_def slice_def slice_from_def
  close_def low_def high_def prim_at_def js_sub_def SMA_getValues_def sma_def mean_def
  Math_min_def Math_max_def toY_def signed_inf_def Let_def loop.simps

subsection \<open>The raw value of a window\<close>

lemma round64_not_NaN: "round64 x \<noteq> NaN"
proof -
  have "round_pos y \<noteq> NaN" for y
    by (simp add: round_pos_def Let_def)
  then have "js_neg (round_pos y) \<noteq> NaN" for y
    by (cases "round_pos y") simp_all
  then show ?thesis
    using \<open>\<And>y. round_pos y \<noteq> NaN\<close> by (simp add: round64_def)
qed

lemma round64_between:
  assumes "a \<le> x" "x \<le> b" "round64 a = Fin a'" "round64 b = Fin b'"
  shows "\<exists>y. round64 x = Fin y \<and> a' \<le> y \<and> y \<le> b'"
proof -
  have "js_le (Fin a') (round64 x)" "js_le (round64 x) (Fin b')"
    using round64_mono [OF assms(1)] round64_mono [OF assms(2)] assms(3,4) by simp_all
  then show ?thesis
    by (cases "round64 x") simp_all
qed

lemma round64_diff_nonzero:
  assumes "is_double a" "is_double b" "a \<noteq> b"
  shows "round64 (b - a) \<noteq> Fin 0"
proof -
  have pos: "round64 (y - x) \<noteq> Fin 0" if "is_double x" "is_double y" "x < y" for x y
  proof
    assume "round64 (y - x) = Fin 0"
    with round64_diff_pos [OF that] have "1 / 2 ^ subnormal_bits \<le> (0::real)" by simp
    moreover have "0 < 1 / (2::real) ^ subnormal_bits" by simp
    ultimately show False by linarith
  qed
  show ?thesis
  proof (cases "a < b")
    case True
    with assms show ?thesis by (intro pos)
  next
    case False
    with assms(3) have "b < a" by simp
    with assms have "round64 (a - b) \<noteq> Fin 0" by (intro pos)
    moreover have "round64 (b - a) = js_neg (round64 (a - b))"
      using round64_neg [of "a - b"] by simp
    ultimately show ?thesis
      by (cases "round64 (a - b)") simp_all
  qed
qed

lemma js_sub_Fin: "js_sub (Fin a) (Fin b) = round64 (a - b)"
  by (simp add: js_sub_def)

lemma K_flat:
  assumes "is_double c" "is_double LL"
  shows "js_mul (js_div (js_sub (Fin LL) (Fin LL)) (js_sub (Fin LL) (Fin LL))) (Fin 100) = NaN"
    and "c \<noteq> LL \<Longrightarrow>
         js_mul (js_div (js_sub (Fin c) (Fin LL)) (js_sub (Fin LL) (Fin LL))) (Fin 100) \<in> {PInf, NInf}"
proof -
  show "js_mul (js_div (js_sub (Fin LL) (Fin LL)) (js_sub (Fin LL) (Fin LL))) (Fin 100) = NaN"
    by (simp add: js_sub_Fin round64_0 signed_inf_def)
  assume "c \<noteq> LL"
  then have "round64 (c - LL) \<noteq> Fin 0"
    using assms by (intro round64_diff_nonzero) simp_all
  then show "js_mul (js_div (js_sub (Fin c) (Fin LL)) (js_sub (Fin LL) (Fin LL))) (Fin 100)
      \<in> {PInf, NInf}"
    using round64_not_NaN [of "c - LL"]
    by (cases "round64 (c - LL)") (simp_all add: js_sub_Fin round64_0 signed_inf_def)
qed

lemma K_low:
  assumes "is_double LL" "is_double HH" "HH \<noteq> LL"
  shows "js_mul (js_div (js_sub (Fin LL) (Fin LL)) (js_sub (Fin HH) (Fin LL))) (Fin 100) = Fin 0"
proof -
  have "round64 (HH - LL) \<noteq> Fin 0"
    using assms by (intro round64_diff_nonzero) simp_all
  then show ?thesis
    using round64_not_NaN [of "HH - LL"]
    by (cases "round64 (HH - LL)") (simp_all add: js_sub_Fin round64_0)
qed

lemma K_high:
  assumes "is_double LL" "is_double HH" "HH \<noteq> LL" "isFinite (js_sub (Fin HH) (Fin LL))"
  shows "js_mul (js_div (js_sub (Fin HH) (Fin LL)) (js_sub (Fin HH) (Fin LL))) (Fin 100) = Fin 100"
proof -
  have "round64 (HH - LL) \<noteq> Fin 0"
    using assms by (intro round64_diff_nonzero) simp_all
  then show ?thesis
    using assms(4)
    by (cases "round64 (HH - LL)") (simp_all add: js_sub_Fin round_vals)
qed

lemma K_between:
  assumes "is_double LL" "is_double HH" "LL \<le> c" "c \<le> HH" "HH \<noteq> LL"
    and "isFinite (js_sub (Fin c) (Fin LL))"
  shows "\<exists>k. js_mul (js_div (js_sub (Fin c) (Fin LL)) (js_sub (Fin HH) (Fin LL))) (Fin 100) = Fin k
              \<and> 0 \<le> k \<and> k \<le> 100"
proof -
  obtain cl where cl: "round64 (c - LL) = Fin cl"
    using assms(6) by (cases "round64 (c - LL)") (simp_all add: js_sub_Fin)
  have "js_le (round64 0) (round64 (c - LL))"
    using assms(3) by (intro round64_mono) simp
  then have cl0: "0 \<le> cl" by (simp add: cl round64_0)
  have lt: "LL < HH" using assms(3,4,5) by simp
  have low: "js_le (Fin (1 / 2 ^ subnormal_bits)) (round64 (HH - LL))"
    using assms(1,2) lt by (rule round64_diff_pos)
  have up: "js_le (Fin cl) (round64 (HH - LL))"
    using round64_mono [of "c - LL" "HH - LL"] assms(4) by (simp add: cl)
  show ?thesis
  proof (cases "round64 (HH - LL)")
    case (Fin hl)
    have "0 < 1 / (2::real) ^ subnormal_bits" by simp
    also have "\<dots> \<le> hl" using low by (simp add: Fin)
    finally have hl: "0 < hl" .
    have "cl \<le> hl" using up by (simp add: Fin)
    with cl0 hl have "0 \<le> cl / hl" "cl / hl \<le> 1" by simp_all
    then obtain q where q: "round64 (cl / hl) = Fin q" "0 \<le> q" "q \<le> 1"
      using round64_between [of 0 "cl / hl" 1 0 1] by (auto simp: round_vals)
    then have "0 \<le> q * 100" "q * 100 \<le> 100" by simp_all
    then obtain k where "round64 (q * 100) = Fin k" "0 \<le> k" "k \<le> 100"
      using round64_between [of 0 "q * 100" 100 0 100] by (auto simp: round_vals)
    with q hl show ?thesis
      by (simp add: js_sub_Fin cl Fin)
  next
    case PInf
    then show ?thesis by (simp add: js_sub_Fin cl round64_0)
  next
    case NInf
    with up show ?thesis by simp
  next
    case NaN
    with up show ?thesis by simp
  qed
qed

lemma calcK_double: "calcK ys periodK i = Inr K \<Longrightarrow> is_double_num K"
  by (auto simp: calcK_def Let_def js_mul_double split: sum.splits)

lemma loop_body:
  "loop xVal yVal periodK periodD i st =
     (if i < int (length yVal) then
        case body xVal yVal periodK periodD i st of
          Inl e \<Rightarrow> Inl e
        | Inr st' \<Rightarrow> loop xVal yVal periodK periodD (i + 1) st'
      else Inr st)"
proof -
  obtain SO xD yD D where st: "st = (SO, xD, yD, D)"
    by (cases st) auto
  show ?thesis
    unfolding st
    by (subst loop.simps) (simp add: body_def Let_def split: sum.splits)
qed

lemma loop_lengths:
  assumes "loop xVal yVal periodK periodD i st = Inr st'"
  shows "length (fst st') = length (fst st) + nat (int (length yVal) - i)
       \<and> length (fst (snd st')) = length (fst (snd st)) + nat (int (length yVal) - i)
       \<and> length (fst (snd (snd st'))) = length (fst (snd (snd st))) + nat (int (length yVal) - i)"
  using assms
proof (induction "nat (int (length yVal) - i)" arbitrary: i st rule: less_induct)
  case less
  show ?case
  proof (cases "i < int (length yVal)")
    case False
    with less.prems show ?thesis
      by (subst (asm) loop_body) simp
  next
    case True
    with less.prems obtain st1 where b: "body xVal yVal periodK periodD i st = Inr st1"
      and l: "loop xVal yVal periodK periodD (i + 1) st1 = Inr st'"
      by (subst (asm) loop_body) (simp split: sum.splits)
    have "nat (int (length yVal) - (i + 1)) < nat (int (length yVal) - i)"
      using True by simp
    from less.hyps [OF this l]
    have IH: "length (fst st') = length (fst st1) + nat (int (length yVal) - (i + 1))
       \<and> length (fst (snd st')) = length (fst (snd st1)) + nat (int (length yVal) - (i + 1))
       \<and> length (fst (snd (snd st'))) = length (fst (snd (snd st1))) + nat (int (length yVal) - (i + 1))" .
    have "length (fst st1) = length (fst st) + 1
       \<and> length (fst (snd st1)) = length (fst (snd st)) + 1
       \<and> length (fst (snd (snd st1))) = length (fst (snd (snd st))) + 1"
      using b by (auto simp: body_def split: prod.splits sum.splits)
    moreover have "nat (int (length yVal) - i) = nat (int (length yVal) - (i + 1)) + 1"
      using True by simp
    ultimately show ?thesis
      using IH by simp
  qed
qed

lemma getValues_complete:
  assumes "getValues s p = Inr (Some r)"
  shows "int (length (values r)) = int (length (yData s)) - fst (periods p) + 1"
    and "length (xData r) = length (values r)"
    and "length (yData r) = length (values r)"
proof -
  define periodK where "periodK = fst (periods p)"
  from assms obtain SO xD yD D where
    g: "periodK \<le> int (length (yData s))"
    and l: "loop (xData s) (yData s) periodK (snd (periods p)) (periodK - 1) ([], [], [], Null)
            = Inr (SO, xD, yD, D)"
    and r: "r = \<lparr>xData = xD, yData = yD, values = SO\<rparr>"
    by (auto simp: getValues_def Let_def periodK_def split: if_splits sum.splits prod.splits)
  from loop_lengths [OF l] g
  show "int (length (values r)) = int (length (yData s)) - fst (periods p) + 1"
    and "length (xData r) = length (values r)"
    and "length (yData r) = length (values r)"
    by (simp_all add: r periodK_def)
qed

lemma window_double:
  assumes "1 \<le> periodK" "periodK - 1 \<le> i" "i < int (length bs)"
    and "\<forall>b\<in>set bs. double_bar b"
  shows "is_double (Min (set (map bar_low (window bs periodK i))))"
    and "is_double (Max (set (map bar_high (window bs periodK i))))"
    and "is_double (bar_close (bs ! nat i))"
proof -
  let ?w = "window bs periodK i"
  have sub: "set ?w \<subseteq> set bs"
    using set_slice [of bs "i - periodK + 1" "i + 1"] slice_window [OF assms(1-3)] by simp
  have ne: "?w \<noteq> []"
    using length_window [of periodK bs i] assms(1) by auto
  have "Min (set (map bar_low ?w)) \<in> set (map bar_low ?w)"
    using ne by (intro Min_in) simp_all
  then obtain b where "b \<in> set ?w" "Min (set (map bar_low ?w)) = bar_low b" by auto
  with sub assms(4) show "is_double (Min (set (map bar_low ?w)))"
    by (auto simp: double_bar_def)
  have "Max (set (map bar_high ?w)) \<in> set (map bar_high ?w)"
    using ne by (intro Max_in) simp_all
  then obtain b' where "b' \<in> set ?w" "Max (set (map bar_high ?w)) = bar_high b'" by auto
  with sub assms(4) show "is_double (Max (set (map bar_high ?w)))"
    by (auto simp: double_bar_def)
  have "bs ! nat i \<in> set bs"
    using assms(1-3) by (intro nth_mem) simp
  with assms(4) show "is_double (bar_close (bs ! nat i))"
    by (auto simp: double_bar_def)
qed

lemma scenario_K:
  "js_mul (js_div (js_sub (Fin 6) (Fin 4)) (js_sub (Fin 8) (Fin 4))) (Fin 100) = Fin 50"
  "js_mul (js_div (js_sub (Fin 9) (Fin 4)) (js_sub (Fin 10) (Fin 4))) (Fin 100)
     = Fin (5864062014805334 / 2 ^ 46)"
proof -
  show "js_mul (js_div (js_sub (Fin 6) (Fin 4)) (js_sub (Fin 8) (Fin 4))) (Fin 100) = Fin 50"
    by (simp add: js_sub_Fin round_vals)
  have a: "js_div (js_sub (Fin 9) (Fin 4)) (js_sub (Fin 10) (Fin 4)) = round64 (5 / 6)"
    by (simp add: js_sub_Fin round_vals)
  have b: "round64 (5 / 6) = Fin (7505999378950827 / 2 ^ 53)"
    using round64_normal [of "5 / 6" 53] by (simp add: half_even_def)
  have c: "js_mul (Fin (7505999378950827 / 2 ^ 53)) (Fin 100)
      = round64 (7505999378950827 / 2 ^ 53 * 100)"
    by (simp only: js_mul.simps)
  have d: "round64 (7505999378950827 / 2 ^ 53 * 100) = Fin (5864062014805334 / 2 ^ 46)"
    using round64_normal [of "7505999378950827 / 2 ^ 53 * 100" 46] by (simp add: half_even_def)
  show "js_mul (js_div (js_sub (Fin 9) (Fin 4)) (js_sub (Fin 10) (Fin 4))) (Fin 100)
     = Fin (5864062014805334 / 2 ^ 46)"
    by (simp only: a b c d)
qed

lemma scenario_double: "\<forall>b\<in>set scenario. double_bar b"
  by (simp add: scenario_def double_bar_def is_double_numeral)

lemma wide_bar_double: "double_bar (wide_bar ! 0)"
proof -
  have "round64 (of_nat (2 ^ 52) * 2 ^ 971) = Fin (of_nat (2 ^ 52) * 2 ^ 971)"
    by (rule round64_dyadic_mul) simp_all
  moreover have "of_nat (2 ^ 52) * 2 ^ 971 = (2::real) ^ 1023"
    by simp
  ultimately have "is_double (2 ^ 1023)"
    by (simp only: is_double_def)
  then show ?thesis
    using is_double_neg [of "2 ^ 1023"] by (simp add: wide_bar_def double_bar_def is_double_0)
qed

lemma wide_bar_K:
  assumes "2 ^ 1023 \<le> H"
  shows "js_mul (js_div (js_sub (Fin H) (Fin (- H))) (js_sub (Fin H) (Fin (- H)))) (Fin 100) = NaN"
proof -
  have "(2::real) ^ 1024 = 2 * 2 ^ 1023" by simp
  also have "\<dots> \<le> H - - H" using assms by simp
  finally have "round64 (H - - H) = PInf"
    by (rule round64_overflow)
  then have "js_sub (Fin H) (Fin (- H)) = PInf"
    by (simp only: js_sub_Fin)
  then show ?thesis by simp
qed

lemma scenario_facts:
  "int (length scenario) = 4"
  "\<forall>b\<in>set (map toY scenario). four_numbers b"
  "int (length (map toY scenario)) = 4"
  by (simp_all add: scenario_def four_numbers_toY)

subsection \<open>The claims about the values\<close>

text \<open>
  Claim C1. For a series of \<open>N \<ge> periodK\<close> bars of four doubles and every index
  \<open>i\<close> from \<open>periodK - 1\<close> to \<open>N - 1\<close>, the raw value emitted for \<open>i\<close> is
  \<open>(close(bars[i]) - LL) / (HH - LL) * 100\<close> in the arithmetic of the language, each
  operation rounded, where \<open>LL\<close> is the least low and \<open>HH\<close> the greatest
  high of the window \<open>bars[i - periodK + 1 .. i]\<close>, which has exactly \<open>periodK\<close>
  bars. Where \<open>HH = LL\<close> the formula divides by zero: its value is
  \<^verbatim>\<open>NaN\<close> for a close equal to \<open>LL\<close> and an infinity otherwise.
\<close>

theorem C1_raw_oscillator:
  assumes "1 \<le> periodK" "1 \<le> periodD" "periodK \<le> int (length bs)"
    and "periodK - 1 \<le> i" "i < int (length bs)"
    and "\<forall>b\<in>set bs. double_bar b"
  shows "\<exists>r K. getValues \<lparr>xData = xs, yData = map toY bs\<rparr> \<lparr>periods = (periodK, periodD)\<rparr> = Inr (Some r)
           \<and> length (window bs periodK i) = nat periodK
           \<and> get_index (values r ! nat (i - (periodK - 1))) 1 = Inr (Num K)
           \<and> get_index (yData r ! nat (i - (periodK - 1))) 0 = Inr (Num K)
           \<and> (let LL = Min (set (map bar_low (window bs periodK i)));
                   HH = Max (set (map bar_high (window bs periodK i)));
                   c = bar_close (bs ! nat i)
               in (HH \<noteq> LL \<longrightarrow>
                     K = js_mul (js_div (js_sub (Fin c) (Fin LL)) (js_sub (Fin HH) (Fin LL))) (Fin 100))
                \<and> (HH = LL \<and> c = LL \<longrightarrow> K = NaN)
                \<and> (HH = LL \<and> c \<noteq> LL \<longrightarrow> K = PInf \<or> K = NInf))"
proof -
  define N where "N = nat (int (length bs) - periodK + 1)"
  define LL where "LL = Min (set (map bar_low (window bs periodK i)))"
  define HH where "HH = Max (set (map bar_high (window bs periodK i)))"
  define c where "c = bar_close (bs ! nat i)"
  define Kf where "Kf = (\<lambda>j. let i = int j + periodK - 1;
                          LL = Min (set (map bar_low (window bs periodK i)));
                          HH = Max (set (map bar_high (window bs periodK i)))
                      in js_mul (js_div (js_sub (Fin (bar_close (bs ! nat i))) (Fin LL))
                                        (js_sub (Fin HH) (Fin LL))) (Fin 100))"
  define R where "R = \<lparr>xData = map (\<lambda>j. prim_at xs (int j + periodK - 1)) [0..<N],
                     yData = map (\<lambda>j. Arr [Num (Kf j), rowD Kf periodD j]) [0..<N],
                     values = map (\<lambda>j. Arr [prim_at xs (int j + periodK - 1), Num (Kf j),
                                             rowD Kf periodD j]) [0..<N]\<rparr>"
  define K where "K = js_mul (js_div (js_sub (Fin c) (Fin LL)) (js_sub (Fin HH) (Fin LL))) (Fin 100)"
  have r: "getValues \<lparr>xData = xs, yData = map toY bs\<rparr> \<lparr>periods = (periodK, periodD)\<rparr> = Inr (Some R)"
    using getValues_toY [OF assms(1,2,3) N_def Kf_def, of xs] by (simp add: R_def)
  have j: "nat (i - (periodK - 1)) < N" "int (nat (i - (periodK - 1))) + periodK - 1 = i"
    using assms by (simp_all add: N_def)
  have Kj: "Kf (nat (i - (periodK - 1))) = K"
    using j(2) by (simp add: Kf_def Let_def K_def LL_def HH_def c_def)
  have v: "get_index (values R ! nat (i - (periodK - 1))) 1 = Inr (Num K)"
    "get_index (yData R ! nat (i - (periodK - 1))) 0 = Inr (Num K)"
    using j(1) by (simp_all add: R_def prim_at_def Kj)
  have len: "length (window bs periodK i) = nat periodK"
    using assms(1) by (simp add: length_window)
  have d: "is_double c" "is_double LL"
    using window_double [OF assms(1,4,5,6)] by (simp_all add: c_def LL_def)
  have flat: "HH = LL \<and> c = LL \<longrightarrow> K = NaN" "HH = LL \<and> c \<noteq> LL \<longrightarrow> K = PInf \<or> K = NInf"
    using K_flat [OF d] by (auto simp: K_def)
  have "HH \<noteq> LL \<longrightarrow> K = js_mul (js_div (js_sub (Fin c) (Fin LL)) (js_sub (Fin HH) (Fin LL))) (Fin 100)"
    by (simp add: K_def)
  with flat show ?thesis
    unfolding Let_def LL_def [symmetric] HH_def [symmetric] c_def [symmetric]
    using r len v by blast
qed

text \<open>
  The scenario of the specification: \<open>periodK = 3\<close>, the value at index 2 is 50 and
  the value at index 3 is \<open>(9 - 4) / (10 - 4) * 100\<close> as the language computes it,
  the double \<open>5864062014805334 / 2 ^ 46\<close>, which is printed as
  \<^verbatim>\<open>83.33333333333334\<close>.
\<close>

theorem C1_raw_oscillator_witness:
  "\<exists>r. getValues \<lparr>xData = timestamps, yData = map toY scenario\<rparr> \<lparr>periods = (3, 2)\<rparr> = Inr (Some r)
     \<and> get_index (values r ! 0) 1 = Inr (Num (Fin 50))
     \<and> get_index (values r ! 1) 1
         = Inr (Num (js_mul (js_div (js_sub (Fin 9) (Fin 4)) (js_sub (Fin 10) (Fin 4))) (Fin 100)))
     \<and> get_index (values r ! 1) 1 = Inr (Num (Fin (5864062014805334 / 2 ^ 46)))"
proof -
  have len: "int (length scenario) = 4"
    by (simp add: scenario_def)
  have w2: "Min (bar_low ` set (window scenario 3 2)) = 4"
    "Max (bar_high ` set (window scenario 3 2)) = 8"
    "bar_close (scenario ! 2) = 6"
    by (simp_all add: window_def scenario_def upto.simps)
  have w3: "Min (bar_low ` set (window scenario 3 3)) = 4"
    "Max (bar_high ` set (window scenario 3 3)) = 10"
    "bar_close (scenario ! 3) = 9"
    by (simp_all add: window_def scenario_def upto.simps)
  from C1_raw_oscillator [of 3 2 scenario 2 timestamps] scenario_double
  obtain r where r: "getValues \<lparr>xData = timestamps, yData = map toY scenario\<rparr> \<lparr>periods = (3, 2)\<rparr> = Inr (Some r)"
    and v2: "get_index (values r ! 0) 1 = Inr (Num (Fin 50))"
    by (auto simp: len w2 Let_def scenario_K)
  from C1_raw_oscillator [of 3 2 scenario 3 timestamps] scenario_double r
  have "get_index (values r ! 1) 1 = Inr (Num (Fin (5864062014805334 / 2 ^ 46)))"
    by (auto simp: len w3 Let_def scenario_K)
  with r v2 show ?thesis by (auto simp: scenario_K)
qed

text \<open>
  Claim C2. On a series of at least \<open>periodK\<close> bars of four numbers, with positive
  periods, output position \<open>j\<close> carries \<^verbatim>\<open>null\<close> as its smoothed value
  while \<open>j < periodD - 1\<close>; from \<open>j = periodD - 1\<close> on it carries the one value the
  moving average of period \<open>periodD\<close> returns for the \<open>periodD\<close> raw values
  \<open>K[j - periodD + 1 .. j]\<close>, their arithmetic mean.
\<close>

theorem C2_smoothed_value:
  assumes "1 \<le> periodK" "1 \<le> periodD" "periodK \<le> int (length ys)"
    and "\<forall>b\<in>set ys. four_numbers b"
  shows "\<exists>r. getValues \<lparr>xData = xs, yData = ys\<rparr> \<lparr>periods = (periodK, periodD)\<rparr> = Inr (Some r)
           \<and> int (length (yData r)) = int (length ys) - periodK + 1
           \<and> length (values r) = length (yData r)
           \<and> (\<forall>j < length (yData r).
                 (int j < periodD - 1 \<longrightarrow>
                    get_index (yData r ! j) 1 = Inr Null \<and> get_index (values r ! j) 2 = Inr Null)
               \<and> (periodD - 1 \<le> int j \<longrightarrow>
                    (let w = trailing (\<lambda>l. row_K (yData r ! l)) (nat periodD) j
                     in length w = nat periodD
                      \<and> sma w periodD = [mean w]
                      \<and> get_index (yData r ! j) 1 = Inr (Num (mean w))
                      \<and> get_index (values r ! j) 2 = Inr (Num (mean w)))))"
proof -
  define N where "N = nat (int (length ys) - periodK + 1)"
  from getValues_indexable [OF assms(1,2,3) four_numbers_series [OF assms(1,3,4)] N_def, of xs]
  obtain Kf :: "nat \<Rightarrow> jsnum" where
    r: "getValues \<lparr>xData = xs, yData = ys\<rparr> \<lparr>periods = (periodK, periodD)\<rparr> =
         Inr (Some \<lparr>xData = map (\<lambda>j. prim_at xs (int j + periodK - 1)) [0..<N],
                     yData = map (\<lambda>j. Arr [Num (Kf j), rowD Kf periodD j]) [0..<N],
                     values = map (\<lambda>j. Arr [prim_at xs (int j + periodK - 1), Num (Kf j),
                                             rowD Kf periodD j]) [0..<N]\<rparr>)"
    by blast
  let ?yD = "map (\<lambda>j. Arr [Num (Kf j), rowD Kf periodD j]) [0..<N]"
  have w: "trailing (\<lambda>l. row_K (?yD ! l)) n j = trailing Kf n j" if "j < N" for j n
    using that by (intro trailing_cong) (simp add: row_K_def prim_at_def)
  have full: "length (trailing Kf (nat periodD) j) = nat periodD
      \<and> sma (trailing Kf (nat periodD) j) periodD = [mean (trailing Kf (nat periodD) j)]"
    if "periodD - 1 \<le> int j" for j
  proof -
    have "length (trailing Kf (nat periodD) j) = nat periodD"
      using that assms(2) by (simp add: trailing_def)
    then show ?thesis using assms(2) by (simp add: sma_full)
  qed
  have "(int j < periodD - 1 \<longrightarrow> rowD Kf periodD j = Null)
      \<and> (periodD - 1 \<le> int j \<longrightarrow> rowD Kf periodD j = Num (mean (trailing Kf (nat periodD) j)))"
    for j
    by (simp add: rowD_def)
  moreover have "int N = int (length ys) - periodK + 1"
    using assms(3) by (simp add: N_def)
  ultimately show ?thesis
    using full by (simp add: r w Let_def prim_at_def)
qed

text \<open>
  The scenario with \<open>periodD = 2\<close>: no smoothed value in the first record, the mean of the
  two raw values in the second.
\<close>

theorem C2_smoothed_value_witness:
  "\<exists>r. getValues \<lparr>xData = timestamps, yData = map toY scenario\<rparr> \<lparr>periods = (3, 2)\<rparr> = Inr (Some r)
     \<and> length (yData r) = 2
     \<and> get_index (yData r ! 0) 1 = Inr Null
     \<and> get_index (values r ! 0) 2 = Inr Null
     \<and> get_index (values r ! 1) 2 = Inr (Num (mean [row_K (yData r ! 0), row_K (yData r ! 1)]))"
proof -
  from C2_smoothed_value [of 3 2 "map toY scenario" timestamps] scenario_facts
  obtain r where
    r: "getValues \<lparr>xData = timestamps, yData = map toY scenario\<rparr> \<lparr>periods = (3, 2)\<rparr> = Inr (Some r)"
    and len: "int (length (yData r)) = 4 - 3 + 1"
    and rows: "\<forall>j < length (yData r).
                 (int j < 2 - 1 \<longrightarrow>
                    get_index (yData r ! j) 1 = Inr Null \<and> get_index (values r ! j) 2 = Inr Null)
               \<and> (2 - 1 \<le> int j \<longrightarrow>
                    (let w = trailing (\<lambda>l. row_K (yData r ! l)) (nat 2) j
                     in length w = nat 2
                      \<and> sma w 2 = [mean w]
                      \<and> get_index (yData r ! j) 1 = Inr (Num (mean w))
                      \<and> get_index (values r ! j) 2 = Inr (Num (mean w))))"
    by auto
  have l2: "length (yData r) = 2"
    using len by simp
  have "trailing (\<lambda>l. row_K (yData r ! l)) (nat 2) 1 = [row_K (yData r ! 0), row_K (yData r ! 1)]"
    by (simp add: trailing_def upt_rec)
  with rows [rule_format, of 0] rows [rule_format, of 1] l2 r show ?thesis
    by (simp add: Let_def)
qed

text \<open>
  Claim C3. For a series of at least \<open>periodK\<close> bars, each an array of four numbers, the
  function returns \<open>length - periodK + 1\<close> records; \<^verbatim>\<open>values\<close>,
  \<^verbatim>\<open>xData\<close> and \<^verbatim>\<open>yData\<close> have that length, position \<open>j\<close> of each
  holds the same timestamp, raw value and smoothed value, and the timestamp is the one the
  series has at index \<open>j + periodK - 1\<close>.
\<close>

theorem C3_aligned_records:
  assumes "1 \<le> periodK" "1 \<le> periodD" "periodK \<le> int (length ys)"
    and "\<forall>b\<in>set ys. four_numbers b"
  shows "\<exists>r. getValues \<lparr>xData = xs, yData = ys\<rparr> \<lparr>periods = (periodK, periodD)\<rparr> = Inr (Some r)
           \<and> int (length (values r)) = int (length ys) - periodK + 1
           \<and> length (xData r) = length (values r)
           \<and> length (yData r) = length (values r)
           \<and> (\<forall>j < length (values r).
                 xData r ! j = prim_at xs (int j + periodK - 1)
               \<and> (\<exists>K D. values r ! j = Arr [xData r ! j, K, D] \<and> yData r ! j = Arr [K, D]))"
proof -
  define N where "N = nat (int (length ys) - periodK + 1)"
  have ne: "ys \<noteq> []" using assms(1,3) by auto
  then have "four_numbers (val_at ys 0)"
    using assms(4) by (simp add: val_at_0)
  then have first: "isArray (val_at ys 0)" "js_length (val_at ys 0) = 4"
    by (rule four_numbers_shape)+
  have "\<forall>b\<in>set ys. indexable b"
    using assms(4) four_numbers_shape(1) by blast
  from getValues_indexable [OF assms(1,2,3) first this N_def, of xs]
  obtain Kf :: "nat \<Rightarrow> jsnum" where
    r: "getValues \<lparr>xData = xs, yData = ys\<rparr> \<lparr>periods = (periodK, periodD)\<rparr> =
         Inr (Some \<lparr>xData = map (\<lambda>j. prim_at xs (int j + periodK - 1)) [0..<N],
                     yData = map (\<lambda>j. Arr [Num (Kf j), rowD Kf periodD j]) [0..<N],
                     values = map (\<lambda>j. Arr [prim_at xs (int j + periodK - 1), Num (Kf j),
                                             rowD Kf periodD j]) [0..<N]\<rparr>)"
    by blast
  have "int N = int (length ys) - periodK + 1"
    using assms(3) by (simp add: N_def)
  then show ?thesis
    by (simp add: r)
qed

text \<open>
  The scenario: four bars and \<open>periodK = 3\<close> give two records, with the timestamps of
  bars 2 and 3.
\<close>

theorem C3_aligned_records_witness:
  "\<exists>r. getValues \<lparr>xData = timestamps, yData = map toY scenario\<rparr> \<lparr>periods = (3, 2)\<rparr> = Inr (Some r)
     \<and> length (values r) = 2 \<and> length (xData r) = 2 \<and> length (yData r) = 2
     \<and> xData r ! 0 = Num (Fin 3) \<and> xData r ! 1 = Num (Fin 4)"
proof -
  have "\<forall>b\<in>set (map toY scenario). four_numbers b"
    by (simp add: four_numbers_toY)
  moreover have "(3::int) \<le> int (length (map toY scenario))"
    by (simp add: scenario_def)
  ultimately obtain r where
    r: "getValues \<lparr>xData = timestamps, yData = map toY scenario\<rparr> \<lparr>periods = (3, 2)\<rparr> = Inr (Some r)"
    and len: "int (length (values r)) = int (length (map toY scenario)) - 3 + 1"
      "length (xData r) = length (values r)" "length (yData r) = length (values r)"
    and x: "\<forall>j < length (values r). xData r ! j = prim_at timestamps (int j + 3 - 1)"
    using C3_aligned_records [of 3 2 "map toY scenario" timestamps] by auto
  have l2: "length (values r) = 2"
    using len(1) by (simp add: scenario_def)
  with x have "xData r ! 0 = Num (Fin 3)" "xData r ! 1 = Num (Fin 4)"
    by (simp_all add: prim_at_def timestamps_def)
  with r l2 len show ?thesis by auto
qed

text \<open>
  Claim C4 as stated fails: a second bar of five fields is not a bar of four numbers, and
  the function returns two records; a first bar of four \<^verbatim>\<open>null\<close> fields is not
  a bar of four numbers, and the function returns one record.
\<close>

theorem C4_later_bar_counterexample:
  "\<not> four_numbers (extra_field_series ! 1)
   \<and> getValues \<lparr>xData = [Num (Fin 1), Num (Fin 2)], yData = extra_field_series\<rparr> \<lparr>periods = (1, 1)\<rparr>
     = Inr (Some \<lparr>xData = [Num (Fin 1), Num (Fin 2)],
                  yData = [Arr [Num (Fin 50), Num (Fin 50)], Arr [Num (Fin 50), Num (Fin 50)]],
                  values = [Arr [Num (Fin 1), Num (Fin 50), Num (Fin 50)],
                            Arr [Num (Fin 2), Num (Fin 50), Num (Fin 50)]]\<rparr>)
   \<and> \<not> four_numbers (null_field_series ! 0)
   \<and> getValues \<lparr>xData = [Num (Fin 1)], yData = null_field_series\<rparr> \<lparr>periods = (1, 1)\<rparr>
     = Inr (Some \<lparr>xData = [Num (Fin 1)], yData = [Arr [Num NaN, Num NaN]],
                  values = [Arr [Num (Fin 1), Num NaN, Num NaN]]\<rparr>)"
  by (simp add: eval_defs extra_field_series_def null_field_series_def round_vals)

text \<open>
  Claim C4, as amended. If the series is shorter than \<open>periodK\<close>, or its first bar is
  not an array of exactly four elements, the function produces no output records: it
  returns nothing. No call returns a partial result: the records of a call that returns
  records are all \<open>length - periodK + 1\<close> of them, in each of the three sequences.
\<close>

theorem C4_rejection:
  "(int (length (yData s)) < fst (periods p)
      \<or> \<not> isArray (val_at (yData s) 0)
      \<or> js_length (val_at (yData s) 0) \<noteq> 4
    \<longrightarrow> getValues s p = Inr None)
   \<and> (\<forall>r. getValues s p = Inr (Some r)
        \<longrightarrow> int (length (values r)) = int (length (yData s)) - fst (periods p) + 1
          \<and> length (xData r) = length (values r)
          \<and> length (yData r) = length (values r))"
proof (intro conjI impI allI)
  assume "int (length (yData s)) < fst (periods p)
      \<or> \<not> isArray (val_at (yData s) 0)
      \<or> js_length (val_at (yData s) 0) \<noteq> 4"
  then show "getValues s p = Inr None"
    by (auto simp: getValues_def Let_def)
next
  fix r assume r: "getValues s p = Inr (Some r)"
  show "int (length (values r)) = int (length (yData s)) - fst (periods p) + 1"
    and "length (xData r) = length (values r)"
    and "length (yData r) = length (values r)"
    using getValues_complete [OF r] by simp_all
qed

text \<open>
  The short series of the specification: two bars and \<open>periodK = 3\<close>.
\<close>

theorem C4_rejection_witness:
  "getValues \<lparr>xData = take 2 timestamps, yData = take 2 (map toY scenario)\<rparr> \<lparr>periods = (3, 2)\<rparr>
     = Inr None"
  using C4_rejection [of "\<lparr>xData = take 2 timestamps, yData = take 2 (map toY scenario)\<rparr>"
                         "\<lparr>periods = (3, 2)\<rparr>"]
  by (simp add: scenario_def)

text \<open>
  Claim C5 as stated fails: one bar with \<open>high = low = 10\<close> and \<open>close = 12\<close>,
  \<open>periodK = 1\<close>: \<open>HH = LL\<close>, and the raw value is \<open>2 / 0 * 100\<close>, positive
  infinity.
\<close>

theorem C5_infinity_counterexample:
  "Max (set (map bar_high (window flat_close_above 1 0)))
     = Min (set (map bar_low (window flat_close_above 1 0)))
   \<and> getValues \<lparr>xData = [Num (Fin 1)], yData = map toY flat_close_above\<rparr> \<lparr>periods = (1, 1)\<rparr>
     = Inr (Some \<lparr>xData = [Num (Fin 1)], yData = [Arr [Num PInf, Num PInf]],
                  values = [Arr [Num (Fin 1), Num PInf, Num PInf]]\<rparr>)"
  by (simp add: eval_defs flat_close_above_def window_def round_vals)

text \<open>
  Claim C5, as amended. Where the window of index \<open>i\<close> of a series of bars of four
  doubles has \<open>HH = LL\<close>, the raw value is \<^verbatim>\<open>NaN\<close> when the close of
  bar \<open>i\<close> equals that common value, as it does when the bar has
  \<open>low \<le> close \<le> high\<close>, and is one of the two infinities otherwise; never a
  finite number. All \<open>length - periodK + 1\<close> records are produced, and every
  smoothed value whose \<open>periodD\<close> raw values contain a \<^verbatim>\<open>NaN\<close> is
  \<^verbatim>\<open>NaN\<close>.
\<close>

theorem C5_flat_window:
  assumes "1 \<le> periodK" "1 \<le> periodD" "periodK \<le> int (length bs)"
    and "periodK - 1 \<le> i" "i < int (length bs)"
    and "\<forall>b\<in>set bs. double_bar b"
    and "Max (set (map bar_high (window bs periodK i))) = Min (set (map bar_low (window bs periodK i)))"
  shows "\<exists>r K. getValues \<lparr>xData = xs, yData = map toY bs\<rparr> \<lparr>periods = (periodK, periodD)\<rparr> = Inr (Some r)
           \<and> int (length (values r)) = int (length bs) - periodK + 1
           \<and> get_index (values r ! nat (i - (periodK - 1))) 1 = Inr (Num K)
           \<and> get_index (yData r ! nat (i - (periodK - 1))) 0 = Inr (Num K)
           \<and> (let LL = Min (set (map bar_low (window bs periodK i)));
                   c = bar_close (bs ! nat i)
               in (c = LL \<longrightarrow> K = NaN)
                \<and> (c \<noteq> LL \<longrightarrow> K = PInf \<or> K = NInf)
                \<and> (bar_low (bs ! nat i) \<le> c \<and> c \<le> bar_high (bs ! nat i) \<longrightarrow> K = NaN))
           \<and> (\<forall>j < length (values r).
                  periodD - 1 \<le> int j
                  \<and> NaN \<in> set (trailing (\<lambda>l. row_K (yData r ! l)) (nat periodD) j)
                 \<longrightarrow> get_index (values r ! j) 2 = Inr (Num NaN)
                   \<and> get_index (yData r ! j) 1 = Inr (Num NaN))"
proof -
  define N where "N = nat (int (length bs) - periodK + 1)"
  define LL where "LL = Min (set (map bar_low (window bs periodK i)))"
  define c where "c = bar_close (bs ! nat i)"
  define Kf where "Kf = (\<lambda>j. let i = int j + periodK - 1;
                          LL = Min (set (map bar_low (window bs periodK i)));
                          HH = Max (set (map bar_high (window bs periodK i)))
                      in js_mul (js_div (js_sub (Fin (bar_close (bs ! nat i))) (Fin LL))
                                        (js_sub (Fin HH) (Fin LL))) (Fin 100))"
  define R where "R = \<lparr>xData = map (\<lambda>j. prim_at xs (int j + periodK - 1)) [0..<N],
                     yData = map (\<lambda>j. Arr [Num (Kf j), rowD Kf periodD j]) [0..<N],
                     values = map (\<lambda>j. Arr [prim_at xs (int j + periodK - 1), Num (Kf j),
                                             rowD Kf periodD j]) [0..<N]\<rparr>"
  define K where "K = js_mul (js_div (js_sub (Fin c) (Fin LL)) (js_sub (Fin LL) (Fin LL))) (Fin 100)"
  have r: "getValues \<lparr>xData = xs, yData = map toY bs\<rparr> \<lparr>periods = (periodK, periodD)\<rparr> = Inr (Some R)"
    using getValues_toY [OF assms(1,2,3) N_def Kf_def, of xs] by (simp add: R_def)
  have j: "nat (i - (periodK - 1)) < N" "int (nat (i - (periodK - 1))) + periodK - 1 = i"
    using assms by (simp_all add: N_def)
  have Kj: "Kf (nat (i - (periodK - 1))) = K"
    using j(2) assms(7) by (simp add: Kf_def Let_def K_def LL_def c_def)
  have len: "int (length (values R)) = int (length bs) - periodK + 1"
    using assms(3) by (simp add: R_def N_def)
  have v: "get_index (values R ! nat (i - (periodK - 1))) 1 = Inr (Num K)"
    "get_index (yData R ! nat (i - (periodK - 1))) 0 = Inr (Num K)"
    using j(1) by (simp_all add: R_def prim_at_def Kj)
  have d: "is_double c" "is_double LL"
    using window_double [OF assms(1,4,5,6)] by (simp_all add: c_def LL_def)
  have eq: "c = LL \<longrightarrow> K = NaN" and ne: "c \<noteq> LL \<longrightarrow> K = PInf \<or> K = NInf"
    using K_flat [OF d] by (auto simp: K_def)
  have bar: "bar_low (bs ! nat i) \<le> c \<and> c \<le> bar_high (bs ! nat i) \<longrightarrow> K = NaN"
  proof
    assume "bar_low (bs ! nat i) \<le> c \<and> c \<le> bar_high (bs ! nat i)"
    then have "LL \<le> c" "c \<le> LL"
      using Min_le_window [OF assms(1,4,5)] assms(7) by (simp_all add: LL_def)
    with eq show "K = NaN" by simp
  qed
  have D: "get_index (values R ! j) 2 = Inr (Num NaN) \<and> get_index (yData R ! j) 1 = Inr (Num NaN)"
    if "j < length (values R)" "periodD - 1 \<le> int j"
       "NaN \<in> set (trailing (\<lambda>l. row_K (yData R ! l)) (nat periodD) j)" for j
  proof -
    have jN: "j < N" using that(1) by (simp add: R_def)
    have "trailing (\<lambda>l. row_K (yData R ! l)) (nat periodD) j = trailing Kf (nat periodD) j"
      using jN by (intro trailing_cong) (simp add: R_def row_K_def prim_at_def)
    with that(3) have "mean (trailing Kf (nat periodD) j) = NaN"
      by (simp add: mean_NaN)
    with that(2) have "rowD Kf periodD j = Num NaN"
      by (simp add: rowD_def)
    with jN show ?thesis
      by (simp add: R_def prim_at_def)
  qed
  show ?thesis
    unfolding Let_def LL_def [symmetric] c_def [symmetric]
    using r len v eq ne bar D by blast
qed

text \<open>
  Two flat bars followed by a bar that moves, \<open>periodK = periodD = 2\<close>: the first raw
  value is \<^verbatim>\<open>NaN\<close>, the second record is produced, and its smoothed value is
  \<^verbatim>\<open>NaN\<close>.
\<close>

theorem C5_flat_window_witness:
  "\<exists>r. getValues \<lparr>xData = timestamps, yData = map toY flat_then_move\<rparr> \<lparr>periods = (2, 2)\<rparr> = Inr (Some r)
     \<and> length (values r) = 2
     \<and> get_index (values r ! 0) 1 = Inr (Num NaN)
     \<and> get_index (values r ! 1) 2 = Inr (Num NaN)"
proof -
  have f: "int (length flat_then_move) = 3"
    "Min (bar_low ` set (window flat_then_move 2 1)) = 10"
    "Max (bar_high ` set (window flat_then_move 2 1)) = 10"
    "bar_close (flat_then_move ! Suc 0) = 10"
    by (simp_all add: window_def flat_then_move_def upto.simps)
  have dbl: "\<forall>b\<in>set flat_then_move. double_bar b"
    by (simp add: flat_then_move_def double_bar_def is_double_numeral)
  from C5_flat_window [of 2 2 flat_then_move 1 timestamps] dbl
  obtain r where
    r: "getValues \<lparr>xData = timestamps, yData = map toY flat_then_move\<rparr> \<lparr>periods = (2, 2)\<rparr> = Inr (Some r)"
    and len: "length (values r) = 2"
    and v: "get_index (values r ! 0) 1 = Inr (Num NaN)" "get_index (yData r ! 0) 0 = Inr (Num NaN)"
    and D: "\<forall>j < length (values r).
                  2 - 1 \<le> int j
                  \<and> NaN \<in> set (trailing (\<lambda>l. row_K (yData r ! l)) (nat 2) j)
                 \<longrightarrow> get_index (values r ! j) 2 = Inr (Num NaN)
                   \<and> get_index (yData r ! j) 1 = Inr (Num NaN)"
    by (auto simp: f Let_def)
  have "row_K (yData r ! 0) = NaN"
    using v(2) by (simp add: row_K_def)
  then have "NaN \<in> set (trailing (\<lambda>l. row_K (yData r ! l)) (nat 2) 1)"
    by (simp add: trailing_def upt_rec)
  with D [rule_format, of 1] len have "get_index (values r ! 1) 2 = Inr (Num NaN)"
    by simp
  with r len v show ?thesis by blast
qed

text \<open>
  Claim C6 as stated fails, in two ways. One bar with \<open>high = 6\<close>, \<open>low = 4\<close>
  and \<open>close = 7\<close>, \<open>periodK = 1\<close>: \<open>HH \<noteq> LL\<close>, and the raw value is
  \<open>(7 - 4) / (6 - 4) * 100 = 150\<close>. And one bar of doubles with
  \<open>high = close = 2 ^ 1023\<close> and \<open>low = - 2 ^ 1023\<close>: \<open>HH \<noteq> LL\<close> and
  \<open>low \<le> close \<le> high\<close>, both differences overflow to the infinity, and the raw
  value is \<^verbatim>\<open>NaN\<close>.
\<close>

theorem C6_range_counterexample:
  "Max (set (map bar_high (window close_above_high 1 0)))
     \<noteq> Min (set (map bar_low (window close_above_high 1 0)))
   \<and> getValues \<lparr>xData = [Num (Fin 1)], yData = map toY close_above_high\<rparr> \<lparr>periods = (1, 1)\<rparr>
     = Inr (Some \<lparr>xData = [Num (Fin 1)], yData = [Arr [Num (Fin 150), Num (Fin 150)]],
                  values = [Arr [Num (Fin 1), Num (Fin 150), Num (Fin 150)]]\<rparr>)
   \<and> double_bar (wide_bar ! 0)
   \<and> Max (set (map bar_high (window wide_bar 1 0))) \<noteq> Min (set (map bar_low (window wide_bar 1 0)))
   \<and> bar_low (wide_bar ! 0) \<le> bar_close (wide_bar ! 0)
   \<and> bar_close (wide_bar ! 0) \<le> bar_high (wide_bar ! 0)
   \<and> getValues \<lparr>xData = [Num (Fin 1)], yData = map toY wide_bar\<rparr> \<lparr>periods = (1, 1)\<rparr>
     = Inr (Some \<lparr>xData = [Num (Fin 1)], yData = [Arr [Num NaN, Num NaN]],
                  values = [Arr [Num (Fin 1), Num NaN, Num NaN]]\<rparr>)"
proof -
  have a: "Max (set (map bar_high (window close_above_high 1 0)))
     \<noteq> Min (set (map bar_low (window close_above_high 1 0)))
   \<and> getValues \<lparr>xData = [Num (Fin 1)], yData = map toY close_above_high\<rparr> \<lparr>periods = (1, 1)\<rparr>
     = Inr (Some \<lparr>xData = [Num (Fin 1)], yData = [Arr [Num (Fin 150), Num (Fin 150)]],
                  values = [Arr [Num (Fin 1), Num (Fin 150), Num (Fin 150)]]\<rparr>)"
    by (simp add: eval_defs close_above_high_def window_def round_vals)
  have b: "Max (set (map bar_high (window wide_bar 1 0))) \<noteq> Min (set (map bar_low (window wide_bar 1 0)))
   \<and> bar_low (wide_bar ! 0) \<le> bar_close (wide_bar ! 0)
   \<and> bar_close (wide_bar ! 0) \<le> bar_high (wide_bar ! 0)"
    by (simp add: wide_bar_def window_def)
  have w: "Min (bar_low ` set (window wide_bar 1 0)) = - (2 ^ 1023)"
    "Max (bar_high ` set (window wide_bar 1 0)) = 2 ^ 1023"
    "bar_close (wide_bar ! 0) = 2 ^ 1023"
    by (simp_all add: wide_bar_def window_def)
  define Kf where "Kf = (\<lambda>j. let i = int j + 1 - 1;
                          LL = Min (set (map bar_low (window wide_bar 1 i)));
                          HH = Max (set (map bar_high (window wide_bar 1 i)))
                      in js_mul (js_div (js_sub (Fin (bar_close (wide_bar ! nat i))) (Fin LL))
                                        (js_sub (Fin HH) (Fin LL))) (Fin 100))"
  have K0: "Kf 0 = NaN"
    unfolding Kf_def Let_def by (simp add: w wide_bar_K)
  have "getValues \<lparr>xData = [Num (Fin 1)], yData = map toY wide_bar\<rparr> \<lparr>periods = (1, 1)\<rparr>
     = Inr (Some \<lparr>xData = map (\<lambda>j. prim_at [Num (Fin 1)] (int j + 1 - 1)) [0..<1],
                     yData = map (\<lambda>j. Arr [Num (Kf j), rowD Kf 1 j]) [0..<1],
                     values = map (\<lambda>j. Arr [prim_at [Num (Fin 1)] (int j + 1 - 1), Num (Kf j),
                                             rowD Kf 1 j]) [0..<1]\<rparr>)"
    by (rule getValues_toY [OF _ _ _ _ Kf_def]) (simp_all add: wide_bar_def)
  then have c: "getValues \<lparr>xData = [Num (Fin 1)], yData = map toY wide_bar\<rparr> \<lparr>periods = (1, 1)\<rparr>
     = Inr (Some \<lparr>xData = [Num (Fin 1)], yData = [Arr [Num NaN, Num NaN]],
                  values = [Arr [Num (Fin 1), Num NaN, Num NaN]]\<rparr>)"
    by (simp add: K0 rowD_def trailing_single mean_NaN prim_at_def)
  from a b c wide_bar_double show ?thesis by blast
qed

text \<open>
  Claim C6, as amended. Where the window of index \<open>i\<close> of a series of bars of four
  doubles has \<open>HH \<noteq> LL\<close>, and the difference \<open>close - LL\<close> is finite as the
  language computes it (it does not overflow), the raw value lies in \<open>[0, 100]\<close> when
  the close of bar \<open>i\<close> lies between \<open>LL\<close> and \<open>HH\<close>, as it does when the
  bar has \<open>low \<le> close \<le> high\<close>; a close equal to \<open>LL\<close> gives 0 and a
  close equal to \<open>HH\<close> gives 100.
\<close>

theorem C6_range:
  assumes "1 \<le> periodK" "1 \<le> periodD" "periodK \<le> int (length bs)"
    and "periodK - 1 \<le> i" "i < int (length bs)"
    and "\<forall>b\<in>set bs. double_bar b"
    and "Max (set (map bar_high (window bs periodK i))) \<noteq> Min (set (map bar_low (window bs periodK i)))"
    and "isFinite (js_sub (Fin (bar_close (bs ! nat i)))
                          (Fin (Min (set (map bar_low (window bs periodK i))))))"
  shows "\<exists>r K. getValues \<lparr>xData = xs, yData = map toY bs\<rparr> \<lparr>periods = (periodK, periodD)\<rparr> = Inr (Some r)
           \<and> get_index (values r ! nat (i - (periodK - 1))) 1 = Inr (Num K)
           \<and> get_index (yData r ! nat (i - (periodK - 1))) 0 = Inr (Num K)
           \<and> (let LL = Min (set (map bar_low (window bs periodK i)));
                   HH = Max (set (map bar_high (window bs periodK i)));
                   c = bar_close (bs ! nat i)
               in (LL \<le> c \<and> c \<le> HH \<longrightarrow> (\<exists>k. K = Fin k \<and> 0 \<le> k \<and> k \<le> 100))
                \<and> (bar_low (bs ! nat i) \<le> c \<and> c \<le> bar_high (bs ! nat i)
                     \<longrightarrow> (\<exists>k. K = Fin k \<and> 0 \<le> k \<and> k \<le> 100))
                \<and> (c = LL \<longrightarrow> K = Fin 0)
                \<and> (c = HH \<longrightarrow> K = Fin 100))"
proof -
  define N where "N = nat (int (length bs) - periodK + 1)"
  define LL where "LL = Min (set (map bar_low (window bs periodK i)))"
  define HH where "HH = Max (set (map bar_high (window bs periodK i)))"
  define c where "c = bar_close (bs ! nat i)"
  define Kf where "Kf = (\<lambda>j. let i = int j + periodK - 1;
                          LL = Min (set (map bar_low (window bs periodK i)));
                          HH = Max (set (map bar_high (window bs periodK i)))
                      in js_mul (js_div (js_sub (Fin (bar_close (bs ! nat i))) (Fin LL))
                                        (js_sub (Fin HH) (Fin LL))) (Fin 100))"
  define R where "R = \<lparr>xData = map (\<lambda>j. prim_at xs (int j + periodK - 1)) [0..<N],
                     yData = map (\<lambda>j. Arr [Num (Kf j), rowD Kf periodD j]) [0..<N],
                     values = map (\<lambda>j. Arr [prim_at xs (int j + periodK - 1), Num (Kf j),
                                             rowD Kf periodD j]) [0..<N]\<rparr>"
  define K where "K = js_mul (js_div (js_sub (Fin c) (Fin LL)) (js_sub (Fin HH) (Fin LL))) (Fin 100)"
  have r: "getValues \<lparr>xData = xs, yData = map toY bs\<rparr> \<lparr>periods = (periodK, periodD)\<rparr> = Inr (Some R)"
    using getValues_toY [OF assms(1,2,3) N_def Kf_def, of xs] by (simp add: R_def)
  have j: "nat (i - (periodK - 1)) < N" "int (nat (i - (periodK - 1))) + periodK - 1 = i"
    using assms by (simp_all add: N_def)
  have Kj: "Kf (nat (i - (periodK - 1))) = K"
    using j(2) by (simp add: Kf_def Let_def K_def LL_def HH_def c_def)
  have v: "get_index (values R ! nat (i - (periodK - 1))) 1 = Inr (Num K)"
    "get_index (yData R ! nat (i - (periodK - 1))) 0 = Inr (Num K)"
    using j(1) by (simp_all add: R_def prim_at_def Kj)
  have d: "is_double LL" "is_double HH"
    using window_double [OF assms(1,4,5,6)] by (simp_all add: LL_def HH_def)
  have ne: "HH \<noteq> LL"
    using assms(7) by (simp add: HH_def LL_def)
  have fin: "isFinite (js_sub (Fin c) (Fin LL))"
    using assms(8) by (simp add: c_def LL_def)
  have between: "LL \<le> c \<and> c \<le> HH \<longrightarrow> (\<exists>k. K = Fin k \<and> 0 \<le> k \<and> k \<le> 100)"
    using K_between [OF d _ _ ne fin] by (simp add: K_def)
  have bar: "LL \<le> c \<and> c \<le> HH" if "bar_low (bs ! nat i) \<le> c \<and> c \<le> bar_high (bs ! nat i)"
    using that Min_le_window [OF assms(1,4,5)] by (simp add: LL_def HH_def c_def)
  have lo: "c = LL \<longrightarrow> K = Fin 0"
    using K_low [OF d ne] by (simp add: K_def)
  have hi: "c = HH \<longrightarrow> K = Fin 100"
    using K_high [OF d ne] fin by (auto simp: K_def)
  show ?thesis
    unfolding Let_def LL_def [symmetric] HH_def [symmetric] c_def [symmetric]
    using r v between bar lo hi by blast
qed

text \<open>
  The scenario at index 2: \<open>LL = 4\<close>, \<open>HH = 8\<close>, \<open>close = 6\<close>.
\<close>

theorem C6_range_witness:
  "\<exists>r k. getValues \<lparr>xData = timestamps, yData = map toY scenario\<rparr> \<lparr>periods = (3, 2)\<rparr> = Inr (Some r)
     \<and> get_index (values r ! 0) 1 = Inr (Num (Fin k)) \<and> 0 \<le> k \<and> k \<le> 100"
proof -
  have w2: "Min (bar_low ` set (window scenario 3 2)) = 4"
    "Max (bar_high ` set (window scenario 3 2)) = 8"
    "bar_close (scenario ! 2) = 6"
    by (simp_all add: window_def scenario_def upto.simps)
  have "isFinite (js_sub (Fin 6) (Fin 4))"
    by (simp add: js_sub_Fin round_vals)
  with C6_range [of 3 2 scenario 2 timestamps] scenario_double show ?thesis
    by (simp add: scenario_facts w2 Let_def) blast
qed

text \<open>
  Claim C7 as stated fails: with a first bar of four numbers and \<^verbatim>\<open>null\<close> as the
  second element, reading the close of the second element raises a
  \<^verbatim>\<open>TypeError\<close>; no sequence is returned.
\<close>

theorem C7_null_bar_counterexample:
  "four_numbers (null_bar_series ! 0)
   \<and> (1::int) \<le> int (length null_bar_series)
   \<and> getValues \<lparr>xData = [Num (Fin 1), Num (Fin 2)], yData = null_bar_series\<rparr> \<lparr>periods = (1, 1)\<rparr>
     = Inl TypeError"
  by (simp add: eval_defs null_bar_series_def round_vals)

text \<open>
  Claim C7, as amended. A series of at least \<open>periodK\<close> elements whose first element is
  an array of length four, and none of whose elements is \<^verbatim>\<open>null\<close> or
  \<^verbatim>\<open>undefined\<close>, yields the three output sequences with one record for each
  index from \<open>periodK - 1\<close>, whatever the shape of the later bars. The function returns
  nothing only for a series shorter than \<open>periodK\<close> or one whose first element fails
  the shape test.
\<close>

theorem C7_only_first_bar_checked:
  "(1 \<le> periodK \<and> 1 \<le> periodD \<and> periodK \<le> int (length ys)
      \<and> isArray (val_at ys 0) \<and> js_length (val_at ys 0) = 4
      \<and> (\<forall>b\<in>set ys. indexable b)
    \<longrightarrow> (\<exists>r. getValues \<lparr>xData = xs, yData = ys\<rparr> \<lparr>periods = (periodK, periodD)\<rparr> = Inr (Some r)
           \<and> int (length (values r)) = int (length ys) - periodK + 1
           \<and> length (xData r) = length (values r)
           \<and> length (yData r) = length (values r)))
   \<and> (getValues \<lparr>xData = xs, yData = ys\<rparr> \<lparr>periods = (periodK, periodD)\<rparr> = Inr None
    \<longrightarrow> int (length ys) < periodK \<or> \<not> isArray (val_at ys 0) \<or> js_length (val_at ys 0) \<noteq> 4)"
proof (intro conjI impI)
  assume a: "1 \<le> periodK \<and> 1 \<le> periodD \<and> periodK \<le> int (length ys)
      \<and> isArray (val_at ys 0) \<and> js_length (val_at ys 0) = 4
      \<and> (\<forall>b\<in>set ys. indexable b)"
  define N where "N = nat (int (length ys) - periodK + 1)"
  from a getValues_indexable [of periodK periodD ys N xs] N_def
  obtain Kf :: "nat \<Rightarrow> jsnum" where
    r: "getValues \<lparr>xData = xs, yData = ys\<rparr> \<lparr>periods = (periodK, periodD)\<rparr> =
         Inr (Some \<lparr>xData = map (\<lambda>j. prim_at xs (int j + periodK - 1)) [0..<N],
                     yData = map (\<lambda>j. Arr [Num (Kf j), rowD Kf periodD j]) [0..<N],
                     values = map (\<lambda>j. Arr [prim_at xs (int j + periodK - 1), Num (Kf j),
                                             rowD Kf periodD j]) [0..<N]\<rparr>)"
    by blast
  have "int N = int (length ys) - periodK + 1"
    using a by (simp add: N_def)
  then show "\<exists>r. getValues \<lparr>xData = xs, yData = ys\<rparr> \<lparr>periods = (periodK, periodD)\<rparr> = Inr (Some r)
           \<and> int (length (values r)) = int (length ys) - periodK + 1
           \<and> length (xData r) = length (values r)
           \<and> length (yData r) = length (values r)"
    by (simp add: r)
next
  assume "getValues \<lparr>xData = xs, yData = ys\<rparr> \<lparr>periods = (periodK, periodD)\<rparr> = Inr None"
  then show "int (length ys) < periodK \<or> \<not> isArray (val_at ys 0) \<or> js_length (val_at ys 0) \<noteq> 4"
    by (simp add: getValues_def Let_def split: sum.splits prod.splits if_splits)
qed

text \<open>
  A series whose second element is a number and whose third is an array of two fields:
  three records are returned.
\<close>

theorem C7_only_first_bar_checked_witness:
  "\<not> four_numbers (mixed_series ! 1) \<and> \<not> four_numbers (mixed_series ! 2)
   \<and> (\<exists>r. getValues \<lparr>xData = timestamps, yData = mixed_series\<rparr> \<lparr>periods = (1, 1)\<rparr> = Inr (Some r)
          \<and> length (values r) = 3 \<and> length (xData r) = 3 \<and> length (yData r) = 3)"
proof -
  have "(1::int) \<le> 1 \<and> (1::int) \<le> 1 \<and> 1 \<le> int (length mixed_series)
      \<and> isArray (val_at mixed_series 0) \<and> js_length (val_at mixed_series 0) = 4
      \<and> (\<forall>b\<in>set mixed_series. indexable b)"
    by (simp add: mixed_series_def val_at_def)
  with C7_only_first_bar_checked [of 1 1 mixed_series timestamps]
  obtain r where "getValues \<lparr>xData = timestamps, yData = mixed_series\<rparr> \<lparr>periods = (1, 1)\<rparr> = Inr (Some r)"
    "int (length (values r)) = int (length mixed_series) - 1 + 1"
    "length (xData r) = length (values r)" "length (yData r) = length (values r)"
    by blast
  then show ?thesis
    by (auto simp: mixed_series_def)
qed

text \<open>
  Claim C10. With \<open>periodD = 1\<close> every record has a smoothed value, from the first one on,
  and it is the raw value of the same record.
\<close>

theorem C10_period_one:
  assumes "1 \<le> periodK" "periodK \<le> int (length ys)"
    and "\<forall>b\<in>set ys. four_numbers b"
  shows "\<exists>r. getValues \<lparr>xData = xs, yData = ys\<rparr> \<lparr>periods = (periodK, 1)\<rparr> = Inr (Some r)
           \<and> int (length (values r)) = int (length ys) - periodK + 1
           \<and> (\<forall>j < length (values r). \<exists>K.
                 get_index (values r ! j) 1 = Inr (Num K)
               \<and> get_index (values r ! j) 2 = Inr (Num K)
               \<and> yData r ! j = Arr [Num K, Num K])"
proof -
  define N where "N = nat (int (length ys) - periodK + 1)"
  have one: "(1::int) \<le> 1" by simp
  from getValues_indexable [OF assms(1) one assms(2) four_numbers_series [OF assms] N_def, of xs]
  obtain Kf :: "nat \<Rightarrow> jsnum" where
    K: "\<And>j. j < N \<Longrightarrow> calcK ys periodK (int j + periodK - 1) = Inr (Kf j)"
    and r: "getValues \<lparr>xData = xs, yData = ys\<rparr> \<lparr>periods = (periodK, 1)\<rparr> =
         Inr (Some \<lparr>xData = map (\<lambda>j. prim_at xs (int j + periodK - 1)) [0..<N],
                     yData = map (\<lambda>j. Arr [Num (Kf j), rowD Kf 1 j]) [0..<N],
                     values = map (\<lambda>j. Arr [prim_at xs (int j + periodK - 1), Num (Kf j),
                                             rowD Kf 1 j]) [0..<N]\<rparr>)"
    by blast
  have "rowD Kf 1 j = Num (Kf j)" if "j < N" for j
    using calcK_double [OF K [OF that]] by (simp add: rowD_def trailing_single mean_single)
  moreover have "int N = int (length ys) - periodK + 1"
    using assms(2) by (simp add: N_def)
  ultimately show ?thesis
    by (simp add: r prim_at_def)
qed

text \<open>
  The scenario with \<open>periodD = 1\<close>.
\<close>

theorem C10_period_one_witness:
  "\<exists>r K. getValues \<lparr>xData = timestamps, yData = map toY scenario\<rparr> \<lparr>periods = (3, 1)\<rparr> = Inr (Some r)
     \<and> length (values r) = 2
     \<and> get_index (values r ! 0) 1 = Inr (Num K)
     \<and> get_index (values r ! 0) 2 = Inr (Num K)"
proof -
  from C10_period_one [of 3 "map toY scenario" timestamps] scenario_facts
  obtain r where
    r: "getValues \<lparr>xData = timestamps, yData = map toY scenario\<rparr> \<lparr>periods = (3, 1)\<rparr> = Inr (Some r)"
    and len: "int (length (values r)) = 4 - 3 + 1"
    and rows: "\<forall>j < length (values r). \<exists>K.
                 get_index (values r ! j) 1 = Inr (Num K)
               \<and> get_index (values r ! j) 2 = Inr (Num K)
               \<and> yData r ! j = Arr [Num K, Num K]"
    by auto
  have l2: "length (values r) = 2"
    using len by simp
  with rows [rule_format, of 0] r show ?thesis
    by auto
qed

subsection \<open>The function on a store computes the same values\<close>

lemma extends_length:
  assumes "extends h0 h"
  shows "length h0 \<le> length h"
proof -
  have "length (take (length h0) h) = length h0"
    using assms by (simp add: extends_def)
  then show ?thesis by simp
qed

lemma extends_nth:
  assumes "extends h0 h" "a < length h0"
  shows "h ! a = h0 ! a"
proof -
  have "take (length h0) h ! a = h ! a"
    using assms(2) by simp
  then show ?thesis
    using assms(1) by (simp add: extends_def)
qed

lemma extends_append: "extends h0 h \<Longrightarrow> extends h0 (h @ [cells])"
  using extends_length [of h0 h] by (simp add: extends_def)

lemma extends_update: "extends h0 h \<Longrightarrow> length h0 \<le> a \<Longrightarrow> extends h0 (h[a := cells])"
  by (simp add: extends_def)

lemma elem_at_prims:
  "list_all is_prim cells \<Longrightarrow> elem_at cells k = HPrim (prim_at (map prim_of cells) k)"
proof -
  assume a: "list_all is_prim cells"
  have "is_prim c \<Longrightarrow> c = HPrim (prim_of c)" for c
    by (cases c) simp_all
  with a show ?thesis
    by (auto simp: elem_at_def prim_at_def list_all_length nat_less_iff)
qed

lemma get_index_h_typed:
  "typed_val h v \<Longrightarrow>
   get_index_h h v k = (case get_index (read_val h v) k of Inl e \<Rightarrow> Inl e | Inr p \<Rightarrow> Inr (HPrim p))"
  by (cases "(h, v, k)" rule: get_index_h.cases) (simp_all add: elem_at_prims read_prims_def)

lemma getArrayExtremes_h_typed:
  "list_all (typed_val h) cells \<Longrightarrow>
   getArrayExtremes_h h cells lo hi = getArrayExtremes (map (read_val h) cells) lo hi"
proof (induction cells)
  case Nil
  show ?case by simp
next
  case (Cons v cells)
  then show ?case
    by (simp add: get_index_h_typed split: sum.splits)
qed

lemma row_samples_h_typed:
  "list_all (typed_val h) cells \<Longrightarrow>
   row_samples_h h cells = row_samples (map (read_val h) cells)"
proof (induction cells)
  case Nil
  show ?case by simp
next
  case (Cons v cells)
  then show ?case
    by (simp add: get_index_h_typed split: sum.splits)
qed

lemma read_val_elem_at:
  "read_val h (elem_at cells i) = val_at (map (read_val h) cells) i"
  by (auto simp: elem_at_def val_at_def nat_less_iff)

lemma typed_val_extends:
  assumes "typed_val h0 v" "extends h0 h"
  shows "typed_val h v" "read_val h v = read_val h0 v"
proof -
  show "typed_val h v"
    using assms extends_length [of h0 h] extends_nth [of h0 h]
    by (cases v) auto
  show "read_val h v = read_val h0 v"
    using assms extends_nth [of h0 h]
    by (cases v) (auto simp: read_prims_def)
qed

lemma typed_series_extends:
  assumes "typed_series h0 xVal yVal" "extends h0 h"
  shows "typed_series h xVal yVal"
    "read_prims h xVal = read_prims h0 xVal"
    "read_vals h yVal = read_vals h0 yVal"
    "h ! xVal = h0 ! xVal" "h ! yVal = h0 ! yVal"
proof -
  have x: "h ! xVal = h0 ! xVal" and y: "h ! yVal = h0 ! yVal"
    using assms extends_nth [of h0 h] by (simp_all add: typed_series_def)
  show "h ! xVal = h0 ! xVal" "h ! yVal = h0 ! yVal" by (rule x, rule y)
  have all: "\<forall>v\<in>set (h0 ! yVal). typed_val h v \<and> read_val h v = read_val h0 v"
    using assms typed_val_extends by (auto simp: typed_series_def list_all_iff)
  show "typed_series h xVal yVal"
    using assms extends_length [of h0 h] all
    by (auto simp: typed_series_def x y list_all_iff)
  show "read_prims h xVal = read_prims h0 xVal"
    by (simp add: read_prims_def x)
  show "read_vals h yVal = read_vals h0 yVal"
    using all by (simp add: read_vals_def y)
qed

lemma slice_from_map: "slice_from (map f xs) a = map f (slice_from xs a)"
  by (simp add: slice_from_def slice_map)

lemma set_slice_from: "set (slice_from xs a) \<subseteq> set xs"
  by (simp add: slice_from_def set_slice)

lemma calcK_h_sim:
  assumes ts: "typed_series h0 xVal yVal" and ext: "extends h0 h"
  shows "calcK_h h yVal periodK i =
           (calcK (read_vals h0 yVal) periodK i,
            h @ [slice (h0 ! yVal) (i - periodK + 1) (i + 1)])"
proof -
  let ?sl = "slice (h0 ! yVal) (i - periodK + 1) (i + 1)"
  let ?h1 = "h @ [?sl]"
  have len: "length h0 \<le> length h"
    using ext by (rule extends_length)
  have ext1: "extends h0 ?h1"
    using ext by (rule extends_append)
  have y: "yVal < length h0" and ty: "list_all (typed_val h0) (h0 ! yVal)"
    using ts by (simp_all add: typed_series_def)
  have hy: "h ! yVal = h0 ! yVal" "?h1 ! yVal = h0 ! yVal"
    using extends_nth [OF ext y] extends_nth [OF ext1 y] by simp_all
  have cells: "\<forall>v\<in>set (h0 ! yVal). typed_val ?h1 v \<and> read_val ?h1 v = read_val h0 v"
    using ty typed_val_extends [OF _ ext1] by (auto simp: list_all_iff)
  have "list_all (typed_val ?h1) ?sl"
    using cells set_slice [of "h0 ! yVal"] by (auto simp: list_all_iff)
  then have ex0: "getArrayExtremes_h ?h1 ?sl low high = getArrayExtremes (map (read_val ?h1) ?sl) low high"
    by (rule getArrayExtremes_h_typed)
  have same: "map (read_val ?h1) (h0 ! yVal) = map (read_val h0) (h0 ! yVal)"
    using cells by simp
  note ex0
  also have "map (read_val ?h1) ?sl = slice (read_vals h0 yVal) (i - periodK + 1) (i + 1)"
    by (simp only: slice_map [symmetric] read_vals_def same)
  finally have ex: "getArrayExtremes_h ?h1 ?sl low high
      = getArrayExtremes (slice (read_vals h0 yVal) (i - periodK + 1) (i + 1)) low high" .
  have "typed_val ?h1 (elem_at (h0 ! yVal) i)"
    using cells by (auto simp: elem_at_def nat_less_iff)
  then have "get_index_h ?h1 (elem_at (h0 ! yVal) i) close
      = (case get_index (read_val ?h1 (elem_at (h0 ! yVal) i)) close of
           Inl e \<Rightarrow> Inl e | Inr p \<Rightarrow> Inr (HPrim p))"
    by (rule get_index_h_typed)
  also have "read_val ?h1 (elem_at (h0 ! yVal) i) = val_at (read_vals h0 yVal) i"
    by (simp only: read_val_elem_at read_vals_def same)
  finally have cl: "get_index_h ?h1 (elem_at (h0 ! yVal) i) close
      = (case get_index (val_at (read_vals h0 yVal) i) close of
           Inl e \<Rightarrow> Inl e | Inr p \<Rightarrow> Inr (HPrim p))" .
  show ?thesis
    by (simp add: calcK_h_def calcK_def alloc_def Let_def hy ex cl split: sum.splits)
qed

lemma calcD_h_sim:
  assumes "yD < length h" "list_all (typed_val h) (h ! yD)"
  shows "\<exists>ext. calcD_h h xD yD periodK periodD i D =
           (calcD (read_prims h xD) (read_vals h yD) periodK periodD i D, h @ ext)"
proof (cases "i \<ge> (periodK - 1) + (periodD - 1)")
  case False
  then have "calcD_h h xD yD periodK periodD i D =
           (calcD (read_prims h xD) (read_vals h yD) periodK periodD i D, h @ [])"
    by (simp add: calcD_h_def calcD_def)
  then show ?thesis by blast
next
  case True
  let ?xs = "slice_from (h ! xD) (- periodD)"
  let ?ys = "slice_from (h ! yD) (- periodD)"
  let ?h2 = "h @ [?xs, ?ys]"
  have ext2: "extends h ?h2"
    by (simp add: extends_def)
  have cells: "\<forall>v\<in>set (h ! yD). typed_val ?h2 v \<and> read_val ?h2 v = read_val h v"
    using assms(2) typed_val_extends [OF _ ext2] by (auto simp: list_all_iff)
  have "list_all (typed_val ?h2) ?ys"
    using cells set_slice_from [of "h ! yD"] by (auto simp: list_all_iff)
  then have "row_samples_h ?h2 ?ys = row_samples (map (read_val ?h2) ?ys)"
    by (rule row_samples_h_typed)
  also have "map (read_val ?h2) ?ys = slice_from (read_vals h yD) (- periodD)"
  proof -
    have "map (read_val ?h2) (h ! yD) = map (read_val h) (h ! yD)"
      using cells by simp
    then show ?thesis
      by (simp only: slice_from_map [symmetric] read_vals_def)
  qed
  finally have rs: "row_samples_h ?h2 ?ys = row_samples (slice_from (read_vals h yD) (- periodD))" .
  have "calcD_h h xD yD periodK periodD i D =
           (calcD (read_prims h xD) (read_vals h yD) periodK periodD i D, h @ [?xs, ?ys])"
    using True assms(1)
    by (simp add: calcD_h_def calcD_def alloc_def Let_def SMA_getValues_h_def SMA_getValues_def
        nth_append rs split: sum.splits)
  then show ?thesis by blast
qed

lemma length_push: "length (push h a v) = length h"
  by (simp add: push_def)

lemma nth_push: "a < length h \<Longrightarrow> push h a v ! b = (if b = a then h ! a @ [v] else h ! b)"
  by (simp add: push_def)

lemma length_store: "length (store h a k v) = length h"
  by (simp add: store_def)

lemma nth_store: "a < length h \<Longrightarrow> store h a k v ! b = (if b = a then (h ! a)[k := v] else h ! b)"
  by (simp add: store_def)

lemma extends_push: "extends h0 h \<Longrightarrow> length h0 \<le> a \<Longrightarrow> extends h0 (push h a v)"
  by (simp add: push_def extends_update)

lemma extends_store: "extends h0 h \<Longrightarrow> length h0 \<le> a \<Longrightarrow> extends h0 (store h a k v)"
  by (simp add: store_def extends_update)

lemma extends_append_list: "extends h0 h \<Longrightarrow> extends h0 (h @ ext)"
  using extends_length [of h0 h] by (simp add: extends_def)

lemma is_row_kept:
  assumes "is_row h yD v" "length h \<le> length h'"
    and "\<And>a. yD < a \<Longrightarrow> a < length h \<Longrightarrow> h' ! a = h ! a"
  shows "is_row h' yD v" "read_val h' v = read_val h v" "typed_val h' v"
  using assms by (cases v; simp add: read_prims_def)+

lemma rows_kept:
  assumes "list_all (is_row h yD) cells" "length h \<le> length h'"
    and "\<And>a. yD < a \<Longrightarrow> a < length h \<Longrightarrow> h' ! a = h ! a"
  shows "list_all (is_row h' yD) cells" "map (read_val h') cells = map (read_val h) cells"
    "list_all (typed_val h') cells"
  using assms is_row_kept [of h yD _ h'] by (simp_all add: list_all_iff)

lemma body_h_sim:
  assumes ts: "typed_series h0 xVal yVal" and ok: "state_ok h0 SO xD yD h"
  shows "case body_h xVal yVal periodK periodD SO xD yD i (h, D) of
      (Inl e, h') \<Rightarrow>
        extends h0 h'
        \<and> body (read_prims h0 xVal) (read_vals h0 yVal) periodK periodD i
             (read_vals h SO, read_prims h xD, read_vals h yD, D) = Inl e
    | (Inr D1, h') \<Rightarrow>
        state_ok h0 SO xD yD h'
        \<and> body (read_prims h0 xVal) (read_vals h0 yVal) periodK periodD i
             (read_vals h SO, read_prims h xD, read_vals h yD, D)
           = Inr (read_vals h' SO, read_prims h' xD, read_vals h' yD, D1)"
proof -
  let ?xs = "read_prims h0 xVal" and ?ys = "read_vals h0 yVal"
  define n where "n = length h"
  have ext: "extends h0 h" and ord: "length h0 \<le> SO" "SO < xD" "xD < yD" "yD < n"
    and xp: "list_all is_prim (h ! xD)"
    and yr: "list_all (is_row h yD) (h ! yD)" and sr: "list_all (is_row h yD) (h ! SO)"
    using ok by (simp_all add: state_ok_def n_def)
  have xv: "xVal < length h0" "list_all is_prim (h0 ! xVal)"
    using ts by (simp_all add: typed_series_def)
  define h1 where "h1 = h @ [slice (h0 ! yVal) (i - periodK + 1) (i + 1)]"
  have K_h: "calcK_h h yVal periodK i = (calcK ?ys periodK i, h1)"
    using calcK_h_sim [OF ts ext] by (simp add: h1_def)
  have ext1: "extends h0 h1"
    using ext by (simp add: h1_def extends_append)
  show ?thesis
  proof (cases "calcK ?ys periodK i")
    case (Inl e)
    then show ?thesis
      using K_h ext1 by (simp add: body_h_def body_def)
  next
    case (Inr K)
    define x where "x = prim_at ?xs i"
    have x_h: "elem_at (h' ! xVal) i = HPrim x" if "extends h0 h'" for h'
      using extends_nth [OF that xv(1)] xv(2) by (simp add: elem_at_prims x_def read_prims_def)
    define h2 where "h2 = push h1 xD (HPrim x)"
    define h3 where "h3 = h2 @ [[HPrim (Num K), HPrim Null]]"
    define h4 where "h4 = push h3 yD (HRef (Suc n))"
    have len4: "length h4 = n + 2"
      by (simp add: h4_def h3_def h2_def h1_def length_push n_def)
    have nth4: "h4 ! xD = h ! xD @ [HPrim x]" "h4 ! yD = h ! yD @ [HRef (Suc n)]"
      "h4 ! Suc n = [HPrim (Num K), HPrim Null]" "h4 ! SO = h ! SO"
      using ord
      by (simp_all add: h4_def h3_def h2_def h1_def nth_push length_push nth_append n_def)
    have kept4: "h4 ! a = h ! a" if "yD < a" "a < n" for a
      using that ord
      by (simp add: h4_def h3_def h2_def h1_def nth_push length_push nth_append n_def)
    have ext4: "extends h0 h4"
      using ext1 ord
      by (simp add: h4_def h3_def h2_def extends_push extends_append)
    have yr4: "list_all (is_row h4 yD) (h ! yD)" "map (read_val h4) (h ! yD) = map (read_val h) (h ! yD)"
      "list_all (typed_val h4) (h ! yD)"
      using rows_kept [OF yr, of h4] kept4 len4 by (simp_all add: n_def)
    have rd4: "read_prims h4 xD = read_prims h xD @ [x]"
      "read_vals h4 yD = read_vals h yD @ [Arr [Num K, Null]]"
      using yr4(2) by (simp_all add: read_prims_def read_vals_def nth4)
    have ty4: "list_all (typed_val h4) (h4 ! yD)"
      using yr4(3) by (simp add: nth4 len4)
    have "yD < length h4"
      using ord len4 by simp
    from calcD_h_sim [OF this ty4, of xD periodK periodD i D]
    obtain ext' where D_h: "calcD_h h4 xD yD periodK periodD i D =
           (calcD (read_prims h xD @ [x]) (read_vals h yD @ [Arr [Num K, Null]]) periodK periodD i D,
            h4 @ ext')"
      by (auto simp: rd4)
    define h5 where "h5 = h4 @ ext'"
    have ext5: "extends h0 h5"
      using ext4 by (simp add: h5_def extends_append_list)
    have A1: "push h1 xD (elem_at (h1 ! xVal) i) = h2"
      by (simp add: h2_def x_h [OF ext1])
    have A2: "alloc h2 [HPrim (Num K), HPrim Null] = (Suc n, h3)"
      by (simp add: alloc_def h3_def h2_def length_push h1_def n_def)
    have A3: "push h3 yD (HRef (Suc n)) = h4"
      by (simp add: h4_def)
    have before: "body_h xVal yVal periodK periodD SO xD yD i (h, D) =
        (case calcD (read_prims h xD @ [x]) (read_vals h yD @ [Arr [Num K, Null]]) periodK periodD i D of
           Inl e \<Rightarrow> (Inl e, h5)
         | Inr D1 \<Rightarrow>
             let h7 = push (h5 @ [[HPrim x, HPrim (Num K), HPrim D1]]) SO (HRef (length h5))
             in case elem_at (h7 ! yD) (int (length (h7 ! yD)) - 1) of
                  HPrim _ \<Rightarrow> (Inl TypeError, h7)
                | HRef r \<Rightarrow> (Inr D1, store h7 r 1 (HPrim D1)))"
      by (simp add: body_h_def K_h Inr Let_def A1 A2 A3 D_h h5_def [symmetric] alloc_def [of h5]
          x_h [OF ext5] split: sum.splits)
    show ?thesis
    proof (cases "calcD (read_prims h xD @ [x]) (read_vals h yD @ [Arr [Num K, Null]]) periodK periodD i D")
      case (Inl e)
      then show ?thesis
        using before ext5 Inr by (simp add: body_def x_def)
    next
      case D1: (Inr D1)
      define p where "p = length h5"
      define h7 where "h7 = push (h5 @ [[HPrim x, HPrim (Num K), HPrim D1]]) SO (HRef p)"
      define h8 where "h8 = store h7 (Suc n) 1 (HPrim D1)"
      have p: "n + 2 \<le> p"
        by (simp add: p_def h5_def len4)
      have len7: "length h7 = Suc p"
        by (simp add: h7_def length_push p_def)
      have nth7: "h7 ! yD = h ! yD @ [HRef (Suc n)]" "h7 ! xD = h ! xD @ [HPrim x]"
        "h7 ! Suc n = [HPrim (Num K), HPrim Null]" "h7 ! SO = h ! SO @ [HRef p]"
        "h7 ! p = [HPrim x, HPrim (Num K), HPrim D1]"
        using ord p nth4 len4
        by (simp_all add: h7_def nth_push nth_append p_def h5_def)
      have kept7: "h7 ! a = h ! a" if "yD < a" "a < n" for a
        using that ord p kept4 [OF that] len4
        by (simp add: h7_def nth_push nth_append p_def h5_def)
      have last: "elem_at (h7 ! yD) (int (length (h7 ! yD)) - 1) = HRef (Suc n)"
        by (simp add: nth7 elem_at_def)
      have res: "body_h xVal yVal periodK periodD SO xD yD i (h, D) = (Inr D1, h8)"
        using before D1 last by (simp add: Let_def h7_def p_def h8_def)
      have len8: "length h8 = Suc p"
        by (simp add: h8_def length_store len7)
      have nth8: "h8 ! yD = h ! yD @ [HRef (Suc n)]" "h8 ! xD = h ! xD @ [HPrim x]"
        "h8 ! Suc n = [HPrim (Num K), HPrim D1]" "h8 ! SO = h ! SO @ [HRef p]"
        "h8 ! p = [HPrim x, HPrim (Num K), HPrim D1]"
        using ord p nth7 len7
        by (simp_all add: h8_def nth_store)
      have kept8: "h8 ! a = h ! a" if "yD < a" "a < n" for a
        using that p kept7 [OF that] len7
        by (simp add: h8_def nth_store)
      have ext8: "extends h0 h8"
        using ext5 ord extends_length [OF ext]
        by (simp add: h8_def h7_def extends_store extends_push extends_append n_def)
      have len: "length h \<le> length h8"
        using p by (simp add: len8 n_def)
      note yr8 = rows_kept [OF yr len kept8 [unfolded n_def]]
      note sr8 = rows_kept [OF sr len kept8 [unfolded n_def]]
      have ok8: "state_ok h0 SO xD yD h8"
        using ext8 ord p xp yr8(1) sr8(1)
        by (simp add: state_ok_def nth8 len8)
      have rd8: "read_vals h8 SO = read_vals h SO @ [Arr [x, Num K, D1]]"
        "read_prims h8 xD = read_prims h xD @ [x]"
        "read_vals h8 yD = read_vals h yD @ [Arr [Num K, D1]]"
        using yr8(2) sr8(2) by (simp_all add: read_vals_def read_prims_def nth8)
      show ?thesis
        using res ok8 Inr D1 by (simp add: rd8 body_def x_def)
    qed
  qed
qed

lemma loop_h_sim:
  assumes ts: "typed_series h0 xVal yVal" and L: "L = int (length (h0 ! yVal))"
  shows "state_ok h0 SO xD yD h \<Longrightarrow>
    (case loop_h xVal yVal L periodK periodD SO xD yD i (h, D) of
       (Some e, h') \<Rightarrow>
         extends h0 h'
         \<and> loop (read_prims h0 xVal) (read_vals h0 yVal) periodK periodD i
              (read_vals h SO, read_prims h xD, read_vals h yD, D) = Inl e
     | (None, h') \<Rightarrow>
         state_ok h0 SO xD yD h'
         \<and> (\<exists>D'. loop (read_prims h0 xVal) (read_vals h0 yVal) periodK periodD i
                    (read_vals h SO, read_prims h xD, read_vals h yD, D)
                  = Inr (read_vals h' SO, read_prims h' xD, read_vals h' yD, D')))"
proof (induction "nat (L - i)" arbitrary: i h D rule: less_induct)
  case less
  have len: "int (length (read_vals h0 yVal)) = L"
    by (simp add: read_vals_def L)
  show ?case
  proof (cases "i < L")
    case False
    then show ?thesis
      using less.prems len
      by (subst loop_h.simps, subst loop_body) simp
  next
    case True
    note sim = body_h_sim [OF ts less.prems, of periodK periodD i D]
    obtain res h1 where b: "body_h xVal yVal periodK periodD SO xD yD i (h, D) = (res, h1)"
      by (cases "body_h xVal yVal periodK periodD SO xD yD i (h, D)") auto
    show ?thesis
    proof (cases res)
      case (Inl e)
      with sim b True len show ?thesis
        by (subst loop_h.simps, subst loop_body) simp
    next
      case (Inr D1)
      with sim b have ok1: "state_ok h0 SO xD yD h1"
        and pure: "body (read_prims h0 xVal) (read_vals h0 yVal) periodK periodD i
             (read_vals h SO, read_prims h xD, read_vals h yD, D)
           = Inr (read_vals h1 SO, read_prims h1 xD, read_vals h1 yD, D1)"
        by simp_all
      have "nat (L - (i + 1)) < nat (L - i)"
        using True by simp
      from less.hyps [OF this ok1, of D1]
      have IH: "case loop_h xVal yVal L periodK periodD SO xD yD (i + 1) (h1, D1) of
       (Some e, h') \<Rightarrow>
         extends h0 h'
         \<and> loop (read_prims h0 xVal) (read_vals h0 yVal) periodK periodD (i + 1)
              (read_vals h1 SO, read_prims h1 xD, read_vals h1 yD, D1) = Inl e
     | (None, h') \<Rightarrow>
         state_ok h0 SO xD yD h'
         \<and> (\<exists>D'. loop (read_prims h0 xVal) (read_vals h0 yVal) periodK periodD (i + 1)
                    (read_vals h1 SO, read_prims h1 xD, read_vals h1 yD, D1)
                  = Inr (read_vals h' SO, read_prims h' xD, read_vals h' yD, D'))" .
      have eq1: "loop_h xVal yVal L periodK periodD SO xD yD i (h, D)
          = loop_h xVal yVal L periodK periodD SO xD yD (i + 1) (h1, D1)"
        using True b Inr by (subst loop_h.simps) simp
      have eq2: "loop (read_prims h0 xVal) (read_vals h0 yVal) periodK periodD i
              (read_vals h SO, read_prims h xD, read_vals h yD, D)
          = loop (read_prims h0 xVal) (read_vals h0 yVal) periodK periodD (i + 1)
              (read_vals h1 SO, read_prims h1 xD, read_vals h1 yD, D1)"
        using True len pure by (subst loop_body) simp
      show ?thesis
        unfolding eq1 eq2 by (rule IH)
    qed
  qed
qed

lemma isArray_h_read: "isArray_h v = isArray (read_val h v)"
  by (cases v) simp_all

lemma js_length_h_read: "js_length_h h v = js_length (read_val h v)"
  by (cases v) (simp_all add: read_prims_def)

lemma getValues_h_sim:
  assumes ts: "typed_series h xVal yVal"
  shows "case getValues_h h xVal yVal \<lparr>periods = (periodK, periodD)\<rparr> of (res, h') \<Rightarrow>
           extends h h'
           \<and> outcome (res, h') = getValues \<lparr>xData = read_prims h xVal, yData = read_vals h yVal\<rparr>
                                            \<lparr>periods = (periodK, periodD)\<rparr>
           \<and> (\<forall>SO xD yD. res = Inr (Some (SO, xD, yD)) \<longrightarrow> state_ok h SO xD yD h')"
proof -
  define n where "n = length h"
  define h3 where "h3 = h @ [[], [], []]"
  have ext3: "extends h h3"
    by (simp add: h3_def extends_def)
  have ok3: "state_ok h n (Suc n) (Suc (Suc n)) h3"
    using ext3 by (simp add: state_ok_def h3_def n_def nth_append)
  have rd3: "read_vals h3 n = []" "read_prims h3 (Suc n) = []" "read_vals h3 (Suc (Suc n)) = []"
    by (simp_all add: read_vals_def read_prims_def h3_def n_def nth_append)
  note ts3 = typed_series_extends [OF ts ext3]
  have first: "read_val h3 (elem_at (h3 ! yVal) 0) = val_at (read_vals h yVal) 0"
    using ts3(3) by (simp add: read_val_elem_at read_vals_def)
  have guard: "isArray_h (elem_at (h3 ! yVal) 0) = isArray (val_at (read_vals h yVal) 0)"
    "js_length_h h3 (elem_at (h3 ! yVal) 0) = js_length (val_at (read_vals h yVal) 0)"
    using first isArray_h_read [of "elem_at (h3 ! yVal) 0" h3]
      js_length_h_read [of h3 "elem_at (h3 ! yVal) 0"] by simp_all
  have len: "int (length (h ! yVal)) = int (length (read_vals h yVal))"
    by (simp add: read_vals_def)
  note sim = loop_h_sim [OF ts refl ok3, of periodK periodD "periodK - 1" Null, unfolded rd3]
  obtain err h' where l: "loop_h xVal yVal (int (length (h ! yVal))) periodK periodD n (Suc n)
      (Suc (Suc n)) (periodK - 1) (h3, Null) = (err, h')"
    by (cases "loop_h xVal yVal (int (length (h ! yVal))) periodK periodD n (Suc n)
      (Suc (Suc n)) (periodK - 1) (h3, Null)") auto
  have a1: "alloc h [] = (n, h @ [[]])"
    and a2: "alloc (h @ [[]]) [] = (Suc n, h @ [[], []])"
    and a3: "alloc (h @ [[], []]) [] = (Suc (Suc n), h3)"
    by (simp_all add: alloc_def n_def h3_def)
  have unfold: "getValues_h h xVal yVal \<lparr>periods = (periodK, periodD)\<rparr> =
      (if int (length (read_vals h yVal)) < periodK \<or> \<not> isArray (val_at (read_vals h yVal) 0)
            \<or> js_length (val_at (read_vals h yVal) 0) \<noteq> 4
       then (Inr None, h3)
       else case err of Some e \<Rightarrow> (Inl e, h') | None \<Rightarrow> (Inr (Some (n, Suc n, Suc (Suc n))), h'))"
    by (simp add: getValues_h_def Let_def a1 a2 a3 guard len [symmetric] l)
  show ?thesis
  proof (cases "int (length (read_vals h yVal)) < periodK \<or> \<not> isArray (val_at (read_vals h yVal) 0)
            \<or> js_length (val_at (read_vals h yVal) 0) \<noteq> 4")
    case True
    then show ?thesis
      using ext3 by (simp add: unfold outcome_def getValues_def Let_def)
  next
    case False
    show ?thesis
    proof (cases err)
      case None
      with sim l obtain D' where "state_ok h n (Suc n) (Suc (Suc n)) h'"
        "loop (read_prims h xVal) (read_vals h yVal) periodK periodD (periodK - 1) ([], [], [], Null)
           = Inr (read_vals h' n, read_prims h' (Suc n), read_vals h' (Suc (Suc n)), D')"
        by auto
      then show ?thesis
        using False None
        by (simp add: unfold outcome_def getValues_def Let_def state_ok_def)
    next
      case (Some e)
      with sim l have "extends h h'"
        "loop (read_prims h xVal) (read_vals h yVal) periodK periodD (periodK - 1) ([], [], [], Null)
           = Inl e"
        by auto
      then show ?thesis
        using False Some
        by (simp add: unfold outcome_def getValues_def Let_def)
    qed
  qed
qed

lemma outcome_kept:
  assumes ok: "state_ok h0 SO xD yD h1" and ext: "extends h1 h2"
  shows "outcome (Inr (Some (SO, xD, yD)), h2) = outcome (Inr (Some (SO, xD, yD)), h1)"
proof -
  have ord: "SO < xD" "xD < yD" "yD < length h1"
    and yr: "list_all (is_row h1 yD) (h1 ! yD)" and sr: "list_all (is_row h1 yD) (h1 ! SO)"
    using ok by (simp_all add: state_ok_def)
  have len: "length h1 \<le> length h2"
    using ext by (rule extends_length)
  have kept: "h2 ! a = h1 ! a" if "a < length h1" for a
    using ext that by (rule extends_nth)
  have "map (read_val h2) (h1 ! yD) = map (read_val h1) (h1 ! yD)"
    "map (read_val h2) (h1 ! SO) = map (read_val h1) (h1 ! SO)"
    using rows_kept(2) [OF yr len kept] rows_kept(2) [OF sr len kept] by simp_all
  then show ?thesis
    using ord by (simp add: outcome_def read_vals_def read_prims_def kept)
qed

subsection \<open>The claims about the store\<close>

text \<open>
  Claim C9. A call on a series of the declared shape leaves every array that existed before
  the call as it was, whether it returns a result, returns nothing or raises: the
  \<^verbatim>\<open>xData\<close> and \<^verbatim>\<open>yData\<close> of the series and every bar read the same before
  and after. The three returned arrays are new, distinct from each other and from every
  array of the store before the call, and so is every row held in \<^verbatim>\<open>values\<close> and
  \<^verbatim>\<open>yData\<close>.
\<close>

theorem C9_input_unchanged:
  assumes "typed_series h xVal yVal"
  shows "case getValues_h h xVal yVal \<lparr>periods = (periodK, periodD)\<rparr> of (res, h') \<Rightarrow>
           take (length h) h' = h
           \<and> h' ! xVal = h ! xVal \<and> h' ! yVal = h ! yVal
           \<and> read_prims h' xVal = read_prims h xVal \<and> read_vals h' yVal = read_vals h yVal
           \<and> (\<forall>SO xD yD. res = Inr (Some (SO, xD, yD)) \<longrightarrow>
                 length h \<le> SO \<and> SO < xD \<and> xD < yD \<and> yD < length h'
               \<and> (\<forall>v \<in> set (h' ! SO) \<union> set (h' ! yD).
                     \<exists>r. v = HRef r \<and> yD < r \<and> r < length h'))"
proof -
  obtain res h' where g: "getValues_h h xVal yVal \<lparr>periods = (periodK, periodD)\<rparr> = (res, h')"
    by (cases "getValues_h h xVal yVal \<lparr>periods = (periodK, periodD)\<rparr>") auto
  from getValues_h_sim [OF assms, of periodK periodD] g
  have ext: "extends h h'"
    and ok: "\<And>SO xD yD. res = Inr (Some (SO, xD, yD)) \<Longrightarrow> state_ok h SO xD yD h'"
    by simp_all
  note ts = typed_series_extends [OF assms ext]
  have rows: "\<exists>r. v = HRef r \<and> yD < r \<and> r < length h'" if "is_row h' yD v" for v yD
    using that by (cases v) simp_all
  have fresh: "length h \<le> SO \<and> SO < xD \<and> xD < yD \<and> yD < length h'
               \<and> (\<forall>v \<in> set (h' ! SO) \<union> set (h' ! yD).
                     \<exists>r. v = HRef r \<and> yD < r \<and> r < length h')"
    if "res = Inr (Some (SO, xD, yD))" for SO xD yD
    using ok [OF that] rows by (auto simp: state_ok_def list_all_iff)
  show ?thesis
    using ext ts fresh by (simp add: g extends_def)
qed

text \<open>
  The scenario in a store: the six arrays of the series are the first six of the store the
  call leaves.
\<close>

theorem C9_input_unchanged_witness:
  "typed_series scenario_heap 0 1
   \<and> take (length scenario_heap) (snd (getValues_h scenario_heap 0 1 \<lparr>periods = (3, 2)\<rparr>)) = scenario_heap
   \<and> read_vals (snd (getValues_h scenario_heap 0 1 \<lparr>periods = (3, 2)\<rparr>)) 1 = read_vals scenario_heap 1"
proof -
  have ts: "typed_series scenario_heap 0 1"
    by (simp add: typed_series_def scenario_heap_def timestamps_def)
  from C9_input_unchanged [OF ts, of 3 2] ts show ?thesis
    by (simp split: prod.splits)
qed

text \<open>
  Claim C8. What a call returns is determined by the contents of the series and the
  parameters: it is the value \<open>getValues\<close> computes from them. Two calls on series with the same contents, in whatever stores and at whatever
  addresses, have the same outcome; in particular a second call on the store the first one
  left returns sequences with the same timestamps, raw and smoothed values position by
  position, and leaves the sequences of the first call as they were.
\<close>

theorem C8_deterministic:
  assumes "typed_series h xVal yVal" "typed_series g xVal' yVal'"
    and "read_prims g xVal' = read_prims h xVal" "read_vals g yVal' = read_vals h yVal"
  shows "outcome (getValues_h h xVal yVal \<lparr>periods = (periodK, periodD)\<rparr>)
           = getValues \<lparr>xData = read_prims h xVal, yData = read_vals h yVal\<rparr>
                       \<lparr>periods = (periodK, periodD)\<rparr>
       \<and> outcome (getValues_h g xVal' yVal' \<lparr>periods = (periodK, periodD)\<rparr>)
           = outcome (getValues_h h xVal yVal \<lparr>periods = (periodK, periodD)\<rparr>)
       \<and> (case getValues_h h xVal yVal \<lparr>periods = (periodK, periodD)\<rparr> of (r1, h1) \<Rightarrow>
          case getValues_h h1 xVal yVal \<lparr>periods = (periodK, periodD)\<rparr> of (r2, h2) \<Rightarrow>
            outcome (r2, h2) = outcome (r1, h1) \<and> outcome (r1, h2) = outcome (r1, h1))"
proof -
  obtain r1 h1 where g1: "getValues_h h xVal yVal \<lparr>periods = (periodK, periodD)\<rparr> = (r1, h1)"
    by (cases "getValues_h h xVal yVal \<lparr>periods = (periodK, periodD)\<rparr>") auto
  obtain r2 h2 where g2: "getValues_h h1 xVal yVal \<lparr>periods = (periodK, periodD)\<rparr> = (r2, h2)"
    by (cases "getValues_h h1 xVal yVal \<lparr>periods = (periodK, periodD)\<rparr>") auto
  obtain r3 h3 where g3: "getValues_h g xVal' yVal' \<lparr>periods = (periodK, periodD)\<rparr> = (r3, h3)"
    by (cases "getValues_h g xVal' yVal' \<lparr>periods = (periodK, periodD)\<rparr>") auto
  from getValues_h_sim [OF assms(1), of periodK periodD] g1
  have ext1: "extends h h1"
    and out1: "outcome (r1, h1) = getValues \<lparr>xData = read_prims h xVal, yData = read_vals h yVal\<rparr>
                                            \<lparr>periods = (periodK, periodD)\<rparr>"
    and ok1: "\<And>SO xD yD. r1 = Inr (Some (SO, xD, yD)) \<Longrightarrow> state_ok h SO xD yD h1"
    by simp_all
  from getValues_h_sim [OF assms(2), of periodK periodD] g3
  have out3: "outcome (r3, h3) = getValues \<lparr>xData = read_prims g xVal', yData = read_vals g yVal'\<rparr>
                                            \<lparr>periods = (periodK, periodD)\<rparr>"
    by simp
  note ts1 = typed_series_extends [OF assms(1) ext1]
  from getValues_h_sim [OF ts1(1), of periodK periodD] g2
  have ext2: "extends h1 h2"
    and out2: "outcome (r2, h2) = getValues \<lparr>xData = read_prims h1 xVal, yData = read_vals h1 yVal\<rparr>
                                            \<lparr>periods = (periodK, periodD)\<rparr>"
    by simp_all
  have same: "outcome (r1, h2) = outcome (r1, h1)"
  proof (cases r1)
    case (Inl e)
    then show ?thesis by (simp add: outcome_def)
  next
    case (Inr res)
    show ?thesis
    proof (cases res)
      case None
      with Inr show ?thesis by (simp add: outcome_def)
    next
      case (Some t)
      obtain SO xD yD where t: "t = (SO, xD, yD)"
        by (cases t) auto
      show ?thesis
        using outcome_kept [OF ok1 ext2, of SO xD yD] Inr Some t by simp
    qed
  qed
  show ?thesis
    using out1 out2 out3 same assms(3,4) ts1(2,3) by (simp add: g1 g2 g3)
qed

text \<open>
  The scenario laid out in two ways, and called twice in a row.
\<close>

theorem C8_deterministic_witness:
  "outcome (getValues_h scenario_heap_moved 5 4 \<lparr>periods = (3, 2)\<rparr>) = outcome (getValues_h scenario_heap 0 1 \<lparr>periods = (3, 2)\<rparr>)
   \<and> outcome (getValues_h (snd (getValues_h scenario_heap 0 1 \<lparr>periods = (3, 2)\<rparr>)) 0 1 \<lparr>periods = (3, 2)\<rparr>)
       = outcome (getValues_h scenario_heap 0 1 \<lparr>periods = (3, 2)\<rparr>)"
proof -
  have ts: "typed_series scenario_heap 0 1" "typed_series scenario_heap_moved 5 4"
    by (simp_all add: typed_series_def scenario_heap_def scenario_heap_moved_def timestamps_def)
  have rd: "read_prims scenario_heap_moved 5 = read_prims scenario_heap 0"
    "read_vals scenario_heap_moved 4 = read_vals scenario_heap 1"
    by (simp_all add: read_prims_def read_vals_def scenario_heap_def scenario_heap_moved_def)
  from C8_deterministic [OF ts rd, of 3 2] show ?thesis
    by (simp split: prod.splits)
qed

end
